theory Spec2Isabelle
  imports Main "HOL-Library.Sublist" "HOL-Library.Multiset"
begin

section \<open>Strings and the Unicode tables of the runtime\<close>

text \<open>
  A Python \<open>str\<close> is a sequence of Unicode code points; the pattern table of the program
  holds Latin-1, Cyrillic and CJK literals, so a string is modelled as a list of code
  points and not as a list of bytes.
\<close>

type_synonym pystr = "nat list"

definition u :: "string \<Rightarrow> pystr" where
  "u s = map of_char s"

text \<open>
  The regular expressions of the program are compiled for \<open>str\<close> subjects, so \<open>\w\<close>,
  \<open>\s\<close>, \<open>\d\<close> and \<open>re.IGNORECASE\<close> follow the Unicode database of the interpreter,
  and \<open>str.lower\<close> does too. On ASCII these are fixed and written out below. For code
  points from 128 on they are tables of the interpreter, not of this program: they are
  taken as a parameter, and every theorem holds for whatever the tables say.
\<close>

record unicode_db =
  uni_word :: "nat \<Rightarrow> bool"
  uni_space :: "nat \<Rightarrow> bool"
  uni_decimal :: "nat \<Rightarrow> bool"
  uni_caseless :: "nat \<Rightarrow> nat \<Rightarrow> bool"
  uni_lower :: "pystr \<Rightarrow> pystr"

definition is_word :: "unicode_db \<Rightarrow> nat \<Rightarrow> bool" where
  "is_word U c =
     (if c < 128
      then (48 \<le> c \<and> c \<le> 57) \<or> (65 \<le> c \<and> c \<le> 90) \<or> (97 \<le> c \<and> c \<le> 122) \<or> c = 95
      else uni_word U c)"

definition is_space :: "unicode_db \<Rightarrow> nat \<Rightarrow> bool" where
  "is_space U c =
     (if c < 128 then (9 \<le> c \<and> c \<le> 13) \<or> (28 \<le> c \<and> c \<le> 32) else uni_space U c)"

definition is_digit :: "unicode_db \<Rightarrow> nat \<Rightarrow> bool" where
  "is_digit U c = (if c < 128 then 48 \<le> c \<and> c \<le> 57 else uni_decimal U c)"

definition ascii_lower :: "nat \<Rightarrow> nat" where
  "ascii_lower c = (if 65 \<le> c \<and> c \<le> 90 then c + 32 else c)"

text \<open>\<open>ci_eq U p c\<close>: the pattern character \<open>p\<close> matches the subject character \<open>c\<close>
  under \<open>re.IGNORECASE\<close>.\<close>

definition ci_eq :: "unicode_db \<Rightarrow> nat \<Rightarrow> nat \<Rightarrow> bool" where
  "ci_eq U p c =
     (if p < 128 \<and> c < 128 then ascii_lower p = ascii_lower c else uni_caseless U p c)"

text \<open>\<open>str.lower\<close>: letter by letter on an ASCII string, the interpreter's table otherwise.\<close>

definition str_lower :: "unicode_db \<Rightarrow> pystr \<Rightarrow> pystr" where
  "str_lower U s = (if list_all (\<lambda>c. c < 128) s then map ascii_lower s else uni_lower U s)"

section \<open>Regular expressions\<close>

text \<open>
  The fragment of Python's \<open>re\<close> syntax that \<open>LANGUAGE_PATTERNS\<close> uses: literal text,
  \<open>.\<close>, \<open>\s\<close>, bracketed classes, \<open>\b\<close>, grouping with alternation, \<open>?\<close>, and \<open>*\<close>
  and \<open>+\<close> (which the table applies to single characters only), and the negative
  lookahead \<open>(?!...)\<close>. Groups capture nothing that the program reads, so a group is
  its body.
\<close>

datatype citem = CChr nat | CDigit | CRange nat nat

datatype atom = Dot | Space | Class "citem list"

datatype regex =
    Eps
  | Lit pystr
  | Atom atom
  | Bound
  | Seq regex regex
  | Alts "regex list"
  | Opt regex
  | Star atom
  | Plus atom
  | NotAhead regex

fun citem_match :: "unicode_db \<Rightarrow> citem \<Rightarrow> nat \<Rightarrow> bool" where
  "citem_match U (CChr p) c = ci_eq U p c"
| "citem_match U CDigit c = is_digit U c"
| "citem_match U (CRange lo hi) c = (lo \<le> c \<and> c \<le> hi)"

fun atom_match :: "unicode_db \<Rightarrow> atom \<Rightarrow> nat \<Rightarrow> bool" where
  "atom_match U Dot c = (c \<noteq> 10)"
| "atom_match U Space c = is_space U c"
| "atom_match U (Class items) c = list_ex (\<lambda>it. citem_match U it c) items"

text \<open>\<open>\b\<close> holds at \<open>i\<close> when exactly one of the characters before and after \<open>i\<close> is a
  word character; a missing character counts as a non-word character.\<close>

definition word_at :: "unicode_db \<Rightarrow> pystr \<Rightarrow> nat \<Rightarrow> bool" where
  "word_at U s i = (i < length s \<and> is_word U (s ! i))"

definition at_boundary :: "unicode_db \<Rightarrow> pystr \<Rightarrow> nat \<Rightarrow> bool" where
  "at_boundary U s i = ((0 < i \<and> word_at U s (i - 1)) \<noteq> word_at U s i)"

text \<open>\<open>lit_at U w s i\<close>: the literal \<open>w\<close> stands in \<open>s\<close> at \<open>i\<close>, letter case ignored.\<close>

definition lit_at :: "unicode_db \<Rightarrow> pystr \<Rightarrow> pystr \<Rightarrow> nat \<Rightarrow> bool" where
  "lit_at U w s i =
     (i + length w \<le> length s \<and> list_all2 (ci_eq U) w (take (length w) (drop i s)))"

text \<open>
  \<open>ends U r s i\<close> lists every position where a match of \<open>r\<close> that starts at \<open>i\<close> can end.
  The engine backtracks through all of them, so \<open>re.search\<close> finds a match exactly when
  some start position has an end position.
\<close>

fun ends :: "unicode_db \<Rightarrow> regex \<Rightarrow> pystr \<Rightarrow> nat \<Rightarrow> nat list" where
  "ends U Eps s i = [i]"
| "ends U (Lit w) s i = (if lit_at U w s i then [i + length w] else [])"
| "ends U (Atom a) s i = (if i < length s \<and> atom_match U a (s ! i) then [Suc i] else [])"
| "ends U Bound s i = (if at_boundary U s i then [i] else [])"
| "ends U (Seq r1 r2) s i = concat (map (ends U r2 s) (ends U r1 s i))"
| "ends U (Alts rs) s i = concat (map (\<lambda>r. ends U r s i) rs)"
| "ends U (Opt r) s i = ends U r s i @ [i]"
| "ends U (Star a) s i = [i ..< Suc (i + length (takeWhile (atom_match U a) (drop i s)))]"
| "ends U (Plus a) s i = [Suc i ..< Suc (i + length (takeWhile (atom_match U a) (drop i s)))]"
| "ends U (NotAhead r) s i = (if ends U r s i = [] then [i] else [])"

definition re_search :: "unicode_db \<Rightarrow> regex \<Rightarrow> pystr \<Rightarrow> bool" where
  "re_search U pat s = list_ex (\<lambda>i. ends U pat s i \<noteq> []) [0 ..< Suc (length s)]"

fun seqs :: "regex list \<Rightarrow> regex" where
  "seqs [] = Eps"
| "seqs (r # rs) = Seq r (seqs rs)"

text \<open>\<open>words ws\<close> is the group \<open>(w1|w2|...)\<close> of literal words.\<close>

definition words :: "pystr list \<Rightarrow> regex" where
  "words ws = Alts (map Lit ws)"

section \<open>Language definitions\<close>

text \<open>
  \<open>LANGUAGE_PATTERNS\<close>, entry by entry in the order of the dictionary. The code points
  written as numbers are the letters outside ASCII of the source: 231, 241 and 234 are the
  c with cedilla, the n with tilde and the e with circumflex; the longer lists are the
  Cyrillic, Japanese, Korean and Chinese words of the table.
\<close>

definition en_tokens :: regex where
  "en_tokens = words [u ''En'', u ''Eng'', u ''English'']"

definition en_patterns :: "regex list" where
  "en_patterns =
     [seqs [Bound, words [u ''USA'', u ''U''], Bound],
      seqs [Bound, en_tokens, Bound],
      seqs [Bound, words [u ''Europe''], Bound, Star Dot, Bound, en_tokens, Bound],
      seqs [Bound, words [u ''World''], Bound],
      seqs [Bound, Alts [seqs [Lit (u ''USA,''), Opt (Atom Space), Lit (u ''Europe'')]], Bound,
            Star Dot, Bound, words [u ''En''], Bound]]"

definition jp_patterns :: "regex list" where
  "jp_patterns =
     [seqs [Bound, words [u ''JPN'', u ''Japan'', u ''J''], Bound],
      Lit [26085, 26412, 35486],
      Lit [26085, 25991]]"

definition fr_patterns :: "regex list" where
  "fr_patterns =
     [seqs [Bound,
            words [u ''Fr'', u ''FRA'', u ''French'', u ''Francais'', u ''Fran'' @ [231] @ u ''ais''],
            Bound]]"

definition de_patterns :: "regex list" where
  "de_patterns = [seqs [Bound, words [u ''De'', u ''Ger'', u ''German'', u ''Deutsch''], Bound]]"

definition es_patterns :: "regex list" where
  "es_patterns =
     [seqs [Bound,
            words [u ''ES'', u ''Spa'', u ''Spanish'', u ''Espa'' @ [241] @ u ''ol'', u ''Espanol'',
                   u ''Castellano''],
            Bound]]"

definition it_patterns :: "regex list" where
  "it_patterns = [seqs [Bound, words [u ''ITA'', u ''It'', u ''Italian'', u ''Italiano''], Bound]]"

definition pt_patterns :: "regex list" where
  "pt_patterns =
     [seqs [Bound,
            Alts [Lit (u ''PT''),
                  seqs [Lit (u ''Portugu''), Atom (Class [CChr 101, CChr 234]), Lit (u ''s'')],
                  Lit (u ''Brazil''), Lit (u ''BR'')],
            Bound]]"

definition ru_patterns :: "regex list" where
  "ru_patterns =
     [seqs [Bound,
            words [u ''RU'', u ''Rus'', u ''Russian'', [1056, 1091, 1089, 1089, 1082, 1080, 1081]],
            Bound]]"

definition ko_patterns :: "regex list" where
  "ko_patterns =
     [seqs [Bound, words [u ''KOR'', u ''Korea'', u ''Korean''], Bound],
      Lit [54620, 44397, 50612],
      Lit [54620, 44544]]"

definition zh_patterns :: "regex list" where
  "zh_patterns =
     [seqs [Bound, words [u ''CHN'', u ''China'', u ''Chinese''], Bound],
      Lit [20013, 25991, 29256],
      Lit [20013, 25991],
      Lit [27721, 21270]]"

definition multi_patterns :: "regex list" where
  "multi_patterns =
     [seqs [Bound,
            Alts [seqs [Lit (u ''Multi''), Opt (Atom Space), Plus (Class [CDigit])],
                  seqs [Lit (u ''M''), Plus (Class [CRange 48 57])]],
            Bound]]"

definition eu_patterns :: "regex list" where
  "eu_patterns =
     [seqs [Bound, words [u ''EUR'', u ''Europe'', u ''EU''], Bound,
            NotAhead (seqs [Star Dot, Bound, en_tokens, Bound])]]"

definition LANGUAGE_PATTERNS :: "(pystr \<times> regex list) list" where
  "LANGUAGE_PATTERNS =
     [(u ''en'', en_patterns), (u ''jp'', jp_patterns), (u ''fr'', fr_patterns),
      (u ''de'', de_patterns), (u ''es'', es_patterns), (u ''it'', it_patterns),
      (u ''pt'', pt_patterns), (u ''ru'', ru_patterns), (u ''ko'', ko_patterns),
      (u ''zh'', zh_patterns), (u ''multi'', multi_patterns), (u ''eu'', eu_patterns)]"

section \<open>Language detection helpers\<close>

text \<open>
  \<open>detect_languages\<close> walks the table; for each language the patterns are tried in order
  and the first one found in the name adds the code (the \<open>break\<close> of the inner loop).
\<close>

definition detect_languages :: "unicode_db \<Rightarrow> pystr \<Rightarrow> pystr set" where
  "detect_languages U filename_no_ext =
     set (map fst
       (filter (\<lambda>(lang_code, patterns). list_ex (\<lambda>pat. re_search U pat filename_no_ext) patterns)
          LANGUAGE_PATTERNS))"

text \<open>
  \<open>should_keep\<close>, the decision of sort mode. Both exits after the first \<open>if\<close> return
  \<open>True\<close>, as in the source.
\<close>

definition should_keep :: "pystr set \<Rightarrow> pystr set \<Rightarrow> bool" where
  "should_keep detected_langs keep_langs =
     (if detected_langs \<noteq> {} then (\<exists>lang \<in> detected_langs. lang \<in> keep_langs)
      else if u ''en'' \<in> keep_langs then True
      else True)"

text \<open>
  The decision of remerge mode is written inline in \<open>do_remerge\<close> (the assignment of
  \<open>allow_back\<close>); it is named here so that the loop below and the theorems share it.
\<close>

definition allow_back :: "pystr set \<Rightarrow> pystr set \<Rightarrow> bool" where
  "allow_back langs keep_langs =
     (if keep_langs = {} then True
      else if langs \<noteq> {} then (\<exists>lang \<in> langs. lang \<in> keep_langs)
      else u ''en'' \<in> keep_langs)"

section \<open>Tokens of the pattern table\<close>

text \<open>
  The words that the patterns look for, language by language, read off the groups of
  \<open>LANGUAGE_PATTERNS\<close>. They serve to state what detection finds; detection itself is
  \<open>detect_languages\<close> above and does not use them.

  \<open>token_at U w s i\<close>: the word \<open>w\<close> stands in \<open>s\<close> at \<open>i\<close> with a word boundary on
  either side.
\<close>

definition token_at :: "unicode_db \<Rightarrow> pystr \<Rightarrow> pystr \<Rightarrow> nat \<Rightarrow> bool" where
  "token_at U w s i = (at_boundary U s i \<and> lit_at U w s i \<and> at_boundary U s (i + length w))"

text \<open>The words that a pattern wraps in \<open>\b(...)\b\<close>.\<close>

definition boundary_tokens :: "(pystr \<times> pystr list) list" where
  "boundary_tokens =
   [(u ''en'', [u ''USA'', u ''U'', u ''En'', u ''Eng'', u ''English'', u ''World'']),
    (u ''jp'', [u ''JPN'', u ''Japan'', u ''J'']),
    (u ''fr'', [u ''Fr'', u ''FRA'', u ''French'', u ''Francais'', u ''Fran'' @ [231] @ u ''ais'']),
    (u ''de'', [u ''De'', u ''Ger'', u ''German'', u ''Deutsch'']),
    (u ''es'', [u ''ES'', u ''Spa'', u ''Spanish'', u ''Espa'' @ [241] @ u ''ol'', u ''Espanol'',
                u ''Castellano'']),
    (u ''it'', [u ''ITA'', u ''It'', u ''Italian'', u ''Italiano'']),
    (u ''pt'', [u ''PT'', u ''Portugues'', u ''Portugu'' @ [234] @ u ''s'', u ''Brazil'', u ''BR'']),
    (u ''ru'', [u ''RU'', u ''Rus'', u ''Russian'', [1056, 1091, 1089, 1089, 1082, 1080, 1081]]),
    (u ''ko'', [u ''KOR'', u ''Korea'', u ''Korean'']),
    (u ''zh'', [u ''CHN'', u ''China'', u ''Chinese'']),
    (u ''eu'', [u ''EUR'', u ''Europe'', u ''EU''])]"

text \<open>The literals that a pattern searches for without \<open>\b\<close>.\<close>

definition bare_tokens :: "(pystr \<times> pystr list) list" where
  "bare_tokens =
   [(u ''jp'', [[26085, 26412, 35486], [26085, 25991]]),
    (u ''ko'', [[54620, 44397, 50612], [54620, 44544]]),
    (u ''zh'', [[20013, 25991, 29256], [20013, 25991], [27721, 21270]])]"

text \<open>\<open>run_of P s a b\<close>: the characters of \<open>s\<close> from \<open>a\<close> up to \<open>b\<close> are at least one and
  all satisfy \<open>P\<close>.\<close>

definition run_of :: "(nat \<Rightarrow> bool) \<Rightarrow> pystr \<Rightarrow> nat \<Rightarrow> nat \<Rightarrow> bool" where
  "run_of P s a b = (a < b \<and> b \<le> length s \<and> list_all (\<lambda>m. P (s ! m)) [a ..< b])"

text \<open>
  The multi-language marker of the \<open>multi\<close> pattern between the positions \<open>i\<close> and \<open>j\<close>:
  \<open>Multi\<close>, at most one space, and digits; or \<open>M\<close> and the digits 0 to 9; with a word
  boundary on either side.
\<close>

definition multi_token_at :: "unicode_db \<Rightarrow> pystr \<Rightarrow> nat \<Rightarrow> nat \<Rightarrow> bool" where
  "multi_token_at U s i j =
     (at_boundary U s i \<and> at_boundary U s j \<and>
      (lit_at U (u ''Multi'') s i \<and>
         (run_of (is_digit U) s (i + 5) j \<or>
          i + 5 < length s \<and> is_space U (s ! (i + 5)) \<and> run_of (is_digit U) s (i + 6) j)
       \<or> lit_at U (u ''M'') s i \<and> run_of (\<lambda>c. 48 \<le> c \<and> c \<le> 57) s (i + 1) j))"

text \<open>
  \<open>english_follows U s j\<close>: from \<open>j\<close> on, before any line feed, \<open>s\<close> holds one of
  \<open>En\<close>, \<open>Eng\<close>, \<open>English\<close> between word boundaries. This is what the lookahead of the
  \<open>eu\<close> pattern excludes.
\<close>

definition english_follows :: "unicode_db \<Rightarrow> pystr \<Rightarrow> nat \<Rightarrow> bool" where
  "english_follows U s j =
     list_ex (\<lambda>k. list_all (\<lambda>m. s ! m \<noteq> 10) [j ..< k] \<and>
                  list_ex (\<lambda>w. token_at U w s k) [u ''En'', u ''Eng'', u ''English''])
       [j ..< Suc (length s)]"

section \<open>The file system\<close>

text \<open>
  The program reaches the file system through \<open>os\<close>, \<open>os.path\<close> and \<open>shutil\<close>. These are
  modelled on a tree of directories and regular files (no links, no permissions), on a
  case-sensitive POSIX system.

  A path is the list of its components below \<open>/\<close>; component names hold no separator, so
  \<open>os.path.join\<close> of a path and a relative path is \<open>@\<close>, \<open>os.path.dirname\<close> is \<open>butlast\<close>
  and \<open>os.path.basename\<close> is \<open>last\<close>. A file carries a content of any type, so that a
  theorem can say which file ends up where. The lists are in the order in which
  \<open>os.scandir\<close> reports the entries.
\<close>

type_synonym path = "pystr list"

record 'c fs =
  files :: "(path \<times> 'c) list"
  dirs :: "path list"

datatype os_error =
    FileExistsError
  | FileNotFoundError
  | NotADirectoryError
  | DirectoryNotEmpty
  | ShutilError

definition is_file :: "'c fs \<Rightarrow> path \<Rightarrow> bool" where
  "is_file fs p = (p \<in> set (map fst (files fs)))"

definition os_path_isdir :: "'c fs \<Rightarrow> path \<Rightarrow> bool" where
  "os_path_isdir fs p = (p = [] \<or> p \<in> set (dirs fs))"

definition os_path_exists :: "'c fs \<Rightarrow> path \<Rightarrow> bool" where
  "os_path_exists fs p = (os_path_isdir fs p \<or> is_file fs p)"

text \<open>
  A tree is well formed when no path is listed twice or as both a file and a directory,
  and every entry lies in a directory.
\<close>

definition wf_fs :: "'c fs \<Rightarrow> bool" where
  "wf_fs fs =
     (distinct (map fst (files fs) @ dirs fs) \<and>
      list_all (\<lambda>p. p \<noteq> [] \<and> os_path_isdir fs (butlast p)) (map fst (files fs) @ dirs fs))"

text \<open>\<open>os.scandir\<close> as \<open>os.walk\<close> uses it: the names of the subdirectories and of the
  other entries of a directory, or nothing when the path is not a directory.\<close>

definition os_scandir :: "'c fs \<Rightarrow> path \<Rightarrow> (pystr list \<times> pystr list) option" where
  "os_scandir fs there =
     (if os_path_isdir fs there
      then Some (map last (filter (\<lambda>p. p \<noteq> [] \<and> butlast p = there) (dirs fs)),
                 map last (filter (\<lambda>p. p \<noteq> [] \<and> butlast p = there) (map fst (files fs))))
      else None)"

text \<open>\<open>os.mkdir\<close>.\<close>

definition os_mkdir :: "'c fs \<Rightarrow> path \<Rightarrow> os_error + 'c fs" where
  "os_mkdir fs p =
     (if os_path_exists fs p then Inl FileExistsError
      else if is_file fs (butlast p) then Inl NotADirectoryError
      else if \<not> os_path_isdir fs (butlast p) then Inl FileNotFoundError
      else Inr (fs\<lparr>dirs := dirs fs @ [p]\<rparr>))"

text \<open>
  \<open>os.makedirs(name, exist_ok=True)\<close>: the missing ancestors first (a \<open>FileExistsError\<close>
  from there is dropped), then \<open>mkdir\<close> of the path itself, whose failure is dropped when
  the path is a directory by then.
\<close>

function os_makedirs :: "'c fs \<Rightarrow> path \<Rightarrow> os_error + 'c fs" where
  "os_makedirs fs name =
     (case (if name \<noteq> [] \<and> \<not> os_path_exists fs (butlast name)
            then (case os_makedirs fs (butlast name) of
                    Inl e \<Rightarrow> if e = FileExistsError then Inr fs else Inl e
                  | Inr fs1 \<Rightarrow> Inr fs1)
            else Inr fs) of
        Inl e \<Rightarrow> Inl e
      | Inr fs1 \<Rightarrow>
          (case os_mkdir fs1 name of
             Inl e \<Rightarrow> if os_path_isdir fs1 name then Inr fs1 else Inl e
           | Inr fs2 \<Rightarrow> Inr fs2))"
  by pat_completeness auto
termination
  by (relation "measure (\<lambda>(fs, name). length name)") auto

text \<open>
  \<open>shutil.move\<close> of a regular file. A destination that is a directory receives the file
  under its own name; otherwise the file is renamed, and \<open>os.rename\<close> replaces a file
  that is already there.
\<close>

definition shutil_move :: "'c fs \<Rightarrow> path \<Rightarrow> path \<Rightarrow> os_error + 'c fs" where
  "shutil_move fs src dst =
     (let real_dst = (if os_path_isdir fs dst then dst @ [last src] else dst) in
      if os_path_isdir fs dst \<and> os_path_exists fs real_dst then Inl ShutilError
      else case map_of (files fs) src of
             None \<Rightarrow> Inl FileNotFoundError
           | Some c \<Rightarrow>
               if is_file fs (butlast real_dst) then Inl NotADirectoryError
               else if \<not> os_path_isdir fs (butlast real_dst) then Inl FileNotFoundError
               else Inr (fs\<lparr>files :=
                      filter (\<lambda>(p, _). p \<noteq> src \<and> p \<noteq> real_dst) (files fs) @ [(real_dst, c)]\<rparr>))"

text \<open>\<open>os.rmdir\<close> removes an empty directory and fails on anything else.\<close>

definition os_rmdir :: "'c fs \<Rightarrow> path \<Rightarrow> os_error + 'c fs" where
  "os_rmdir fs p =
     (if is_file fs p then Inl NotADirectoryError
      else if p \<notin> set (dirs fs) then Inl FileNotFoundError
      else if os_scandir fs p \<noteq> Some ([], []) then Inl DirectoryNotEmpty
      else Inr (fs\<lparr>dirs := filter (\<lambda>q. q \<noteq> p) (dirs fs)\<rparr>))"

text \<open>
  \<open>os.path.splitext\<close> on a file name: the extension starts at the last dot, unless only
  dots stand before it.
\<close>

definition splitext :: "pystr \<Rightarrow> pystr \<times> pystr" where
  "splitext p =
     (let k = length (takeWhile (\<lambda>c. c \<noteq> 46) (rev p)) in
      if k = length p then (p, [])
      else if list_all (\<lambda>c. c = 46) (take (length p - k - 1) p) then (p, [])
      else (take (length p - k - 1) p, drop (length p - k - 1) p))"

text \<open>\<open>os.path.splitext\<close> on a path splits its last component.\<close>

definition path_splitext :: "path \<Rightarrow> path \<times> pystr" where
  "path_splitext p =
     (case rev p of
        [] \<Rightarrow> ([], [])
      | name # _ \<Rightarrow> (butlast p @ [fst (splitext name)], snd (splitext name)))"

text \<open>
  \<open>os.path.relpath(p, start)\<close> for absolute normal paths: one \<open>..\<close> for each component
  of \<open>start\<close> beyond the common prefix, then the rest of \<open>p\<close>; \<open>.\<close> when nothing is left.
\<close>

definition os_path_relpath :: "path \<Rightarrow> path \<Rightarrow> path" where
  "os_path_relpath p start =
     (let i = length (longest_common_prefix p start);
          rel = replicate (length start - i) (u ''..'') @ drop i p
      in if rel = [] then [u ''.''] else rel)"

text \<open>\<open>os.path.commonpath\<close> of two absolute normal paths.\<close>

definition os_path_commonpath :: "path \<Rightarrow> path \<Rightarrow> path" where
  "os_path_commonpath p q = longest_common_prefix p q"

text \<open>The decimal digits of a number, as \<open>str\<close> and the f-strings print it.\<close>

fun str_of_nat :: "nat \<Rightarrow> pystr" where
  "str_of_nat n = (if n < 10 then [48 + n] else str_of_nat (n div 10) @ [48 + n mod 10])"

text \<open>
  A loop over a list that stops at the first error, as an exception leaves a \<open>for\<close> loop.
\<close>

fun for_each :: "('a \<Rightarrow> 's \<Rightarrow> os_error + 's) \<Rightarrow> 'a list \<Rightarrow> 's \<Rightarrow> os_error + 's" where
  "for_each body [] s = Inr s"
| "for_each body (x # xs) s =
     (case body x s of Inl e \<Rightarrow> Inl e | Inr s' \<Rightarrow> for_each body xs s')"

text \<open>
  \<open>os.walk(top)\<close>, top down, with the loop body passed in. The walk keeps a stack of
  directories still to visit. It lists a directory when it reaches it, runs the body on
  the listing, and then puts the subdirectories that the listing named on the stack; so
  what the body changes on disk is seen by the listings that come later. A path that is
  no longer a directory is skipped. The state of the loop is the file system and the
  variables of the caller.
\<close>

partial_function (option) os_walk ::
  "(path \<Rightarrow> pystr list \<Rightarrow> pystr list \<Rightarrow> 'c fs \<times> 'a \<Rightarrow> os_error + 'c fs \<times> 'a) \<Rightarrow>
   path list \<Rightarrow> 'c fs \<times> 'a \<Rightarrow> (os_error + 'c fs \<times> 'a) option" where
  "os_walk body stack s =
     (case stack of
        [] \<Rightarrow> Some (Inr s)
      | here # rest \<Rightarrow>
          (case os_scandir (fst s) here of
             None \<Rightarrow> os_walk body rest s
           | Some (dirnames, filenames) \<Rightarrow>
               (case body here dirnames filenames s of
                  Inl e \<Rightarrow> Some (Inl e)
                | Inr s' \<Rightarrow> os_walk body (map (\<lambda>d. here @ [d]) dirnames @ rest) s')))"

declare os_walk.simps [code]

text \<open>
  \<open>os.walk(top, topdown=False)\<close>. A directory is listed when the walk reaches it; its
  subdirectories are walked next; the listing taken before that is handed to the body
  afterwards.
\<close>

datatype walk_item = Visit path | Yield path "pystr list" "pystr list"

partial_function (option) os_walk_bottomup ::
  "(path \<Rightarrow> pystr list \<Rightarrow> pystr list \<Rightarrow> 'c fs \<times> 'a \<Rightarrow> 'c fs \<times> 'a) \<Rightarrow>
   walk_item list \<Rightarrow> 'c fs \<times> 'a \<Rightarrow> ('c fs \<times> 'a) option" where
  "os_walk_bottomup body stack s =
     (case stack of
        [] \<Rightarrow> Some s
      | Visit here # rest \<Rightarrow>
          (case os_scandir (fst s) here of
             None \<Rightarrow> os_walk_bottomup body rest s
           | Some (dirnames, filenames) \<Rightarrow>
               os_walk_bottomup body
                 (map (\<lambda>d. Visit (here @ [d])) dirnames @ Yield here dirnames filenames # rest) s)
      | Yield here dirnames filenames # rest \<Rightarrow>
          os_walk_bottomup body rest (body here dirnames filenames s))"

declare os_walk_bottomup.simps [code]

section \<open>Filesystem helpers\<close>

definition ROM_EXTENSIONS :: "pystr set" where
  "ROM_EXTENSIONS = set (map u
     [''.a26'', ''.a52'', ''.a78'',
      ''.nes'', ''.fds'', ''.sfc'', ''.smc'', ''.gb'', ''.gbc'', ''.gba'',
      ''.nds'', ''.dsi'', ''.3ds'', ''.cia'',
      ''.n64'', ''.z64'', ''.v64'',
      ''.sms'', ''.gg'', ''.sg'', ''.sgx'',
      ''.md'', ''.smd'', ''.gen'', ''.32x'', ''.meg'', ''.bin'', ''.rom'',
      ''.pce'',
      ''.neo'', ''.ngp'', ''.ngc'', ''.ngpc'',
      ''.cue'', ''.iso'', ''.chd'', ''.gdi'', ''.cdi'',
      ''.mdf'', ''.mds'', ''.nrg'',
      ''.cso'', ''.pbp'',
      ''.vpk'', ''.psv'', ''.psvita'',
      ''.nsp'', ''.xci'',
      ''.zip'', ''.7z'', ''.7zip'', ''.rar'',
      ''.adf'', ''.d64'', ''.tap'', ''.tzx''])"

definition MOVED_ROMS :: pystr where
  "MOVED_ROMS = u ''Moved ROMS''"

text \<open>The test \<open>os.path.splitext(f)[1].lower() in ROM_EXTENSIONS\<close> of both walks.\<close>

definition has_rom_ext :: "unicode_db \<Rightarrow> pystr \<Rightarrow> bool" where
  "has_rom_ext U f = (str_lower U (snd (splitext f)) \<in> ROM_EXTENSIONS)"

text \<open>
  \<open>collect_roms\<close> is a generator over \<open>os.walk(root_dir)\<close>. \<open>collect_roms_in\<close> is what it
  yields for one directory of the walk; \<open>collect_roms\<close> runs the loop body of its caller
  on each pair, directory after directory.
\<close>

definition collect_roms_in ::
  "unicode_db \<Rightarrow> path \<Rightarrow> bool \<Rightarrow> path \<Rightarrow> pystr list \<Rightarrow> (path \<times> path) list" where
  "collect_roms_in U root_dir include_moved base filenames =
     (let moved_root_abs = root_dir @ [MOVED_ROMS] in
      map (\<lambda>f. (base @ [f], os_path_relpath (base @ [f]) root_dir))
        (filter (\<lambda>f. has_rom_ext U f \<and>
                      \<not> (\<not> include_moved \<and>
                         os_path_commonpath (base @ [f]) moved_root_abs = moved_root_abs))
           filenames))"

definition collect_roms ::
  "unicode_db \<Rightarrow> path \<Rightarrow> bool \<Rightarrow> (path \<times> path \<Rightarrow> 'c fs \<times> 'a \<Rightarrow> os_error + 'c fs \<times> 'a) \<Rightarrow>
   'c fs \<times> 'a \<Rightarrow> (os_error + 'c fs \<times> 'a) option" where
  "collect_roms U root_dir include_moved body s =
     os_walk (\<lambda>base dirnames filenames.
                 for_each body (collect_roms_in U root_dir include_moved base filenames))
       [root_dir] s"

definition ensure_parent_dir :: "'c fs \<Rightarrow> path \<Rightarrow> os_error + 'c fs" where
  "ensure_parent_dir fs p =
     (let parent = butlast p in
      if \<not> os_path_isdir fs parent then os_makedirs fs parent else Inr fs)"

text \<open>The candidate name \<open>f"{base_no_ext} ({counter}){ext}"\<close>.\<close>

definition numbered :: "path \<Rightarrow> pystr \<Rightarrow> nat \<Rightarrow> path" where
  "numbered base_no_ext ext counter =
     (case rev base_no_ext of
        [] \<Rightarrow> [u '' ('' @ str_of_nat counter @ u '')'' @ ext]
      | name # up \<Rightarrow> rev up @ [name @ u '' ('' @ str_of_nat counter @ u '')'' @ ext])"

declare str_of_nat.simps [simp del]

fun digits_value :: "pystr \<Rightarrow> nat" where
  "digits_value ds = foldl (\<lambda>a d. 10 * a + (d - 48)) 0 ds"

lemma digits_value_str_of_nat: "digits_value (str_of_nat n) = n"
proof (induction n rule: str_of_nat.induct)
  case (1 n)
  show ?case
  proof (cases "n < 10")
    case True
    then show ?thesis by (subst str_of_nat.simps) simp
  next
    case False
    have "digits_value (str_of_nat n) = 10 * digits_value (str_of_nat (n div 10)) + n mod 10"
      using False by (subst str_of_nat.simps) simp
    then show ?thesis using 1 False by simp
  qed
qed

lemma str_of_nat_inj: "str_of_nat m = str_of_nat n \<Longrightarrow> m = n"
  by (metis digits_value_str_of_nat)

lemma numbered_inj: "numbered b e m = numbered b e n \<Longrightarrow> m = n"
  by (auto simp: numbered_def split: list.splits dest: str_of_nat_inj)

lemma finite_numbered_exists: "finite {k. os_path_exists fs (numbered b e k)}"
proof -
  have "{k. os_path_exists fs (numbered b e k)} \<subseteq>
        numbered b e -` ({[]} \<union> set (dirs fs) \<union> set (map fst (files fs)))"
    by (auto simp: os_path_exists_def os_path_isdir_def is_file_def)
  moreover have "finite (numbered b e -` ({[]} \<union> set (dirs fs) \<union> set (map fst (files fs))))"
    by (rule finite_vimageI) (auto simp: inj_on_def dest: numbered_inj)
  ultimately show ?thesis by (rule finite_subset)
qed

text \<open>The \<open>while\<close> loop of \<open>unique_destination_path\<close>. It ends because the candidates
  differ from one another and only finitely many paths exist.\<close>

function unique_loop :: "'c fs \<Rightarrow> path \<Rightarrow> pystr \<Rightarrow> nat \<Rightarrow> path" where
  "unique_loop fs base_no_ext ext counter =
     (if os_path_exists fs (numbered base_no_ext ext counter)
      then unique_loop fs base_no_ext ext (counter + 1)
      else numbered base_no_ext ext counter)"
  by pat_completeness auto
termination
proof (relation "measure (\<lambda>(fs, b, e, c). card {k. c \<le> k \<and> os_path_exists fs (numbered b e k)})")
  show "wf (measure (\<lambda>(fs :: 'c fs, b, e, c). card {k. c \<le> k \<and> os_path_exists fs (numbered b e k)}))"
    by simp
next
  fix fs :: "'c fs" and b e c
  assume ex: "os_path_exists fs (numbered b e c)"
  have fin: "finite {k. c \<le> k \<and> os_path_exists fs (numbered b e k)}"
    by (rule finite_subset [OF _ finite_numbered_exists [of fs b e]]) auto
  have "c \<in> {k. c \<le> k \<and> os_path_exists fs (numbered b e k)}"
    and "c \<notin> {k. c + 1 \<le> k \<and> os_path_exists fs (numbered b e k)}"
    and "{k. c + 1 \<le> k \<and> os_path_exists fs (numbered b e k)} \<subseteq>
        {k. c \<le> k \<and> os_path_exists fs (numbered b e k)}"
    using ex by auto
  then have "{k. c + 1 \<le> k \<and> os_path_exists fs (numbered b e k)} \<subset>
        {k. c \<le> k \<and> os_path_exists fs (numbered b e k)}"
    by blast
  then have "card {k. c + 1 \<le> k \<and> os_path_exists fs (numbered b e k)} <
        card {k. c \<le> k \<and> os_path_exists fs (numbered b e k)}"
    using fin by (rule psubset_card_mono [rotated])
  then show "((fs, b, e, c + 1), (fs, b, e, c)) \<in>
        measure (\<lambda>(fs, b, e, c). card {k. c \<le> k \<and> os_path_exists fs (numbered b e k)})"
    by simp
qed

definition unique_destination_path :: "'c fs \<Rightarrow> path \<Rightarrow> path" where
  "unique_destination_path fs dest_full_path =
     (if \<not> os_path_exists fs dest_full_path then dest_full_path
      else let (base_no_ext, ext) = path_splitext dest_full_path in
           unique_loop fs base_no_ext ext 1)"

definition plan_dest_paths_for_sort :: "path \<Rightarrow> path \<Rightarrow> path \<times> path" where
  "plan_dest_paths_for_sort root_dir rel_path =
     (let logical_rel_dest = [MOVED_ROMS] @ rel_path;
          physical_abs_dest = root_dir @ logical_rel_dest
      in (logical_rel_dest, physical_abs_dest))"

definition plan_dest_paths_for_remerge :: "path \<Rightarrow> path \<Rightarrow> path \<times> path" where
  "plan_dest_paths_for_remerge root_dir rel_from_moved =
     (let logical_rel_dest = rel_from_moved;
          physical_abs_dest = root_dir @ rel_from_moved
      in (logical_rel_dest, physical_abs_dest))"

text \<open>
  The three lines that both modes run on a live move: make the parent directory, pick a
  free name, move the file. An error of the file system ends the run.
\<close>

definition relocate :: "'c fs \<Rightarrow> path \<Rightarrow> path \<Rightarrow> os_error + 'c fs" where
  "relocate fs abs_path physical_abs_dest =
     (case ensure_parent_dir fs physical_abs_dest of
        Inl e \<Rightarrow> Inl e
      | Inr fs1 \<Rightarrow>
          let final_abs_dest = unique_destination_path fs1 physical_abs_dest in
          shutil_move fs1 abs_path final_abs_dest)"

section \<open>Core modes: sort, remerge, langs-report, cleanup\<close>

text \<open>
  The report is kept as a list of lines. A line that the source formats from a decision
  keeps the parts it is formatted from; \<open>sorted(list(langs))\<close> is kept as the set
  \<open>langs\<close>. A heading is text; a line that prints a number is the text before the
  number and the number, and \<open>Counted\<close> when text follows the number too.
\<close>

datatype log_line =
    Text string
  | Total string nat
  | Counted string nat string
  | KeepLine path "pystr set"
  | MoveLine path path "pystr set"
  | RemergeLine path path "pystr set"
  | SkipLine path "pystr set"
  | RemovedLine path

record sort_vars =
  moved_count :: nat
  kept_count :: nat
  move_entries :: "log_line list"
  keep_entries :: "log_line list"

text \<open>The body of the loop of \<open>do_sort\<close>, for one pair that \<open>collect_roms\<close> yields.\<close>

definition sort_rom ::
  "unicode_db \<Rightarrow> path \<Rightarrow> pystr set \<Rightarrow> bool \<Rightarrow> path \<times> path \<Rightarrow> 'c fs \<times> sort_vars \<Rightarrow>
   os_error + 'c fs \<times> sort_vars" where
  "sort_rom U root_dir keep_langs do_move rom s =
     (let (abs_path, rel_path) = rom;
          (fs, v) = s;
          filename = last abs_path;
          (name_no_ext, _) = splitext filename;
          langs = detect_languages U name_no_ext;
          keep_it = should_keep langs keep_langs
      in if keep_it
         then Inr (fs, v\<lparr>kept_count := kept_count v + 1,
                          keep_entries := keep_entries v @ [KeepLine rel_path langs]\<rparr>)
         else let (logical_rel_dest, physical_abs_dest) = plan_dest_paths_for_sort root_dir rel_path;
                  v' = v\<lparr>moved_count := moved_count v + 1,
                         move_entries :=
                           move_entries v @ [MoveLine rel_path logical_rel_dest langs]\<rparr>
              in if do_move
                 then (case relocate fs abs_path physical_abs_dest of
                         Inl e \<Rightarrow> Inl e
                       | Inr fs' \<Rightarrow> Inr (fs', v'))
                 else Inr (fs, v'))"

definition sort_report :: "sort_vars \<Rightarrow> log_line list" where
  "sort_report v =
     [Text ''---- KEPT FILES ----''] @ keep_entries v @
     [Text '''', Text ''---- MOVED (or WOULD MOVE) FILES ----''] @ move_entries v @
     [Text '''', Text ''---- SORT SUMMARY ----'',
      Total ''Total kept: '' (kept_count v),
      Total ''Total moved (or would move): '' (moved_count v)]"

text \<open>
  \<open>do_sort\<close>. The result is \<open>None\<close> if the walk does not end, an error if the file system
  raised one, and else the file system after the run with the report.
\<close>

definition do_sort ::
  "unicode_db \<Rightarrow> path \<Rightarrow> pystr set \<Rightarrow> bool \<Rightarrow> 'c fs \<Rightarrow> log_line list \<Rightarrow>
   (os_error + 'c fs \<times> log_line list) option" where
  "do_sort U root_dir keep_langs do_move fs log_lines =
     (case collect_roms U root_dir False (sort_rom U root_dir keep_langs do_move)
             (fs, \<lparr>moved_count = 0, kept_count = 0, move_entries = [], keep_entries = []\<rparr>) of
        None \<Rightarrow> None
      | Some (Inl e) \<Rightarrow> Some (Inl e)
      | Some (Inr (fs', v)) \<Rightarrow> Some (Inr (fs', log_lines @ sort_report v)))"

record remerge_vars =
  moved_back_count :: nat
  skipped_count :: nat
  remerge_entries :: "log_line list"
  skip_entries :: "log_line list"

text \<open>The body of the inner loop of \<open>do_remerge\<close>, for one file name \<open>f\<close> of the
  directory \<open>base\<close>.\<close>

definition remerge_file ::
  "unicode_db \<Rightarrow> path \<Rightarrow> pystr set \<Rightarrow> bool \<Rightarrow> path \<Rightarrow> pystr \<Rightarrow> 'c fs \<times> remerge_vars \<Rightarrow>
   os_error + 'c fs \<times> remerge_vars" where
  "remerge_file U root_dir keep_langs do_move base f s =
     (let (fs, v) = s;
          moved_root = root_dir @ [MOVED_ROMS]
      in if \<not> has_rom_ext U f then Inr (fs, v)
         else
           let abs_path = base @ [f];
               rel_from_moved = os_path_relpath abs_path moved_root;
               (logical_rel_dest, physical_abs_dest) =
                  plan_dest_paths_for_remerge root_dir rel_from_moved;
               (name_no_ext, _) = splitext f;
               langs = detect_languages U name_no_ext
           in if allow_back langs keep_langs
              then let v' = v\<lparr>remerge_entries :=
                               remerge_entries v @
                                 [RemergeLine rel_from_moved logical_rel_dest langs]\<rparr>
                   in (case (if do_move then relocate fs abs_path physical_abs_dest else Inr fs) of
                         Inl e \<Rightarrow> Inl e
                       | Inr fs' \<Rightarrow> Inr (fs', v'\<lparr>moved_back_count := moved_back_count v' + 1\<rparr>))
              else Inr (fs, v\<lparr>skip_entries := skip_entries v @ [SkipLine rel_from_moved langs],
                               skipped_count := skipped_count v + 1\<rparr>))"

definition remerge_report :: "remerge_vars \<Rightarrow> log_line list" where
  "remerge_report v =
     [Text ''---- REMERGE MOVED (or WOULD MOVE) ----''] @ remerge_entries v @
     [Text '''', Text ''---- REMERGE SKIPPED ----''] @ skip_entries v @
     [Text '''', Text ''---- REMERGE SUMMARY ----'',
      Total ''Total moved back (or would move): '' (moved_back_count v),
      Total ''Total skipped: '' (skipped_count v)]"

definition do_remerge ::
  "unicode_db \<Rightarrow> path \<Rightarrow> pystr set \<Rightarrow> bool \<Rightarrow> 'c fs \<Rightarrow> log_line list \<Rightarrow>
   (os_error + 'c fs \<times> log_line list) option" where
  "do_remerge U root_dir keep_langs do_move fs log_lines =
     (let moved_root = root_dir @ [MOVED_ROMS] in
      if \<not> os_path_isdir fs moved_root
      then Some (Inr (fs, log_lines @
             [Text ''[INFO] No 'Moved ROMS' folder found, nothing to remerge.'',
              Text ''---- REMERGE SUMMARY ----'',
              Text ''Total moved back: 0'',
              Text ''Total skipped: 0'']))
      else
        (case os_walk (\<lambda>base dirnames filenames.
                         for_each (remerge_file U root_dir keep_langs do_move base) filenames)
                [moved_root]
                (fs, \<lparr>moved_back_count = 0, skipped_count = 0,
                      remerge_entries = [], skip_entries = []\<rparr>) of
           None \<Rightarrow> None
         | Some (Inl e) \<Rightarrow> Some (Inl e)
         | Some (Inr (fs', v)) \<Rightarrow> Some (Inr (fs', log_lines @ remerge_report v))))"

text \<open>
  \<open>do_langs_report\<close>. A \<open>Counter\<close> is a function to the counts, zero where nothing was
  counted, and \<open>folder_lang_counts\<close> is one such function for each folder. The result
  holds the two tables; the lines that the source prints from them, in the order of its
  dictionaries, are not modelled.
\<close>

definition langs_rom ::
  "unicode_db \<Rightarrow> path \<times> path \<Rightarrow>
   'c fs \<times> (pystr \<Rightarrow> pystr \<Rightarrow> nat) \<times> (pystr \<Rightarrow> nat) \<Rightarrow>
   os_error + 'c fs \<times> (pystr \<Rightarrow> pystr \<Rightarrow> nat) \<times> (pystr \<Rightarrow> nat)" where
  "langs_rom U rom s =
     (let (abs_path, rel_path) = rom;
          (fs, folder_lang_counts, total_counts) = s;
          folder_bucket = (case rel_path of first # _ # _ \<Rightarrow> first | _ \<Rightarrow> []);
          filename = last abs_path;
          (name_no_ext, _) = splitext filename;
          langs = detect_languages U name_no_ext;
          counted = (if langs = {} then {u ''unknown''} else langs)
      in Inr (fs,
              folder_lang_counts(folder_bucket :=
                (\<lambda>lang. if lang \<in> counted then folder_lang_counts folder_bucket lang + 1
                        else folder_lang_counts folder_bucket lang)),
              (\<lambda>lang. if lang \<in> counted then total_counts lang + 1 else total_counts lang)))"

definition do_langs_report ::
  "unicode_db \<Rightarrow> path \<Rightarrow> 'c fs \<Rightarrow> log_line list \<Rightarrow>
   (os_error + 'c fs \<times> log_line list \<times> (pystr \<Rightarrow> pystr \<Rightarrow> nat) \<times> (pystr \<Rightarrow> nat)) option" where
  "do_langs_report U root_dir fs log_lines =
     (case collect_roms U root_dir False (langs_rom U) (fs, (\<lambda>folder lang. 0), (\<lambda>lang. 0)) of
        None \<Rightarrow> None
      | Some (Inl e) \<Rightarrow> Some (Inl e)
      | Some (Inr (fs', folder_lang_counts, total_counts)) \<Rightarrow>
          Some (Inr (fs', log_lines @ [Text ''=== LANGUAGE SUMMARY ===''],
                     folder_lang_counts, total_counts)))"

text \<open>
  \<open>cleanup_empty_dirs\<close>: a walk from the bottom up that removes a directory when the
  listing handed to the loop names no subdirectory and no file. A failure of \<open>os.rmdir\<close>
  is caught and the directory is left.
\<close>

definition cleanup_dir ::
  "path \<Rightarrow> pystr list \<Rightarrow> pystr list \<Rightarrow> 'c fs \<times> path list \<Rightarrow> 'c fs \<times> path list" where
  "cleanup_dir dirpath dirnames filenames s =
     (let (fs, removed) = s in
      if dirnames = [] \<and> filenames = []
      then (case os_rmdir fs dirpath of
              Inl e \<Rightarrow> (fs, removed)
            | Inr fs' \<Rightarrow> (fs', removed @ [dirpath]))
      else (fs, removed))"

definition cleanup_empty_dirs :: "'c fs \<Rightarrow> path \<Rightarrow> ('c fs \<times> path list) option" where
  "cleanup_empty_dirs fs root = os_walk_bottomup cleanup_dir [Visit root] (fs, [])"

section \<open>The modes of \<open>main\<close>\<close>

text \<open>
  The part of \<open>main\<close> that picks the mode and the keep set from the parsed arguments and
  runs the mode on \<open>root_dir\<close>. The heading of the report, the clock and the writing of
  the log file are left out.
\<close>

record args =
  arg_keep :: "pystr list"
  arg_move :: bool
  arg_remerge :: bool
  arg_langs :: bool
  arg_cleanup :: bool

definition keep_langs_of :: "unicode_db \<Rightarrow> args \<Rightarrow> pystr set" where
  "keep_langs_of U a =
     (let mode_langs = arg_langs a;
          mode_remerge = (arg_remerge a \<and> \<not> mode_langs);
          explicit_keep_empty = (arg_keep a = [])
      in if mode_langs \<or> mode_remerge
         then (if explicit_keep_empty then {} else set (map (str_lower U) (arg_keep a)))
         else (if explicit_keep_empty then {u ''en''} else set (map (str_lower U) (arg_keep a))))"

definition run_mode ::
  "unicode_db \<Rightarrow> path \<Rightarrow> args \<Rightarrow> 'c fs \<Rightarrow> log_line list \<Rightarrow>
   (os_error + 'c fs \<times> log_line list) option" where
  "run_mode U root_dir a fs log_lines =
     (let mode_langs = arg_langs a;
          mode_remerge = (arg_remerge a \<and> \<not> mode_langs);
          keep_langs = keep_langs_of U a
      in if mode_langs then
           (case do_langs_report U root_dir fs log_lines of
              None \<Rightarrow> None
            | Some (Inl e) \<Rightarrow> Some (Inl e)
            | Some (Inr (fs1, log1, _)) \<Rightarrow> Some (Inr (fs1, log1)))
         else if mode_remerge then
           (case do_remerge U root_dir keep_langs (arg_move a) fs log_lines of
              None \<Rightarrow> None
            | Some (Inl e) \<Rightarrow> Some (Inl e)
            | Some (Inr (fs1, log1)) \<Rightarrow>
                if arg_cleanup a then
                  (let moved_root = root_dir @ [MOVED_ROMS] in
                   if os_path_isdir fs1 moved_root then
                     (if arg_move a then
                        (case cleanup_empty_dirs fs1 moved_root of
                           None \<Rightarrow> None
                         | Some (fs2, removed_dirs) \<Rightarrow>
                             Some (Inr (fs2, log1 @ [Text '''', Text ''---- CLEANUP ----''] @
                               (if removed_dirs \<noteq> []
                                then Counted ''Removed '' (length removed_dirs)
                                       '' empty directories:'' #
                                     map RemovedLine removed_dirs
                                else [Text ''No empty directories were removed; none were empty.'']))))
                      else Some (Inr (fs1, log1 @
                             [Text '''', Text ''---- CLEANUP (DRY RUN) ----'',
                              Text (''Would remove any now-empty folders inside 'Moved ROMS/' '' @
                                    ''after remerge completes with --move.'')])))
                   else Some (Inr (fs1, log1 @
                          [Text '''', Text ''[INFO] No 'Moved ROMS' folder found to clean.''])))
                else Some (Inr (fs1, log1)))
         else do_sort U root_dir keep_langs (arg_move a) fs log_lines)"

section \<open>What a run reports\<close>

text \<open>
  The files that a sort pass looks at: the regular files in \<open>root_dir\<close> or in a directory
  below it whose extension is a ROM extension and that do not lie under \<open>Moved ROMS\<close>. The
  line of the report for such a file is the one that the loop of \<open>do_sort\<close> appends.
\<close>

definition sort_candidates :: "unicode_db \<Rightarrow> 'c fs \<Rightarrow> path \<Rightarrow> path set" where
  "sort_candidates U fs root_dir =
     {p. is_file fs p \<and> prefix root_dir (butlast p) \<and> has_rom_ext U (last p) \<and>
         \<not> prefix (root_dir @ [MOVED_ROMS]) p}"

definition sort_keeps :: "unicode_db \<Rightarrow> pystr set \<Rightarrow> path \<Rightarrow> bool" where
  "sort_keeps U keep_langs abs_path =
     should_keep (detect_languages U (fst (splitext (last abs_path)))) keep_langs"

definition sort_line :: "unicode_db \<Rightarrow> path \<Rightarrow> pystr set \<Rightarrow> path \<Rightarrow> log_line" where
  "sort_line U root_dir keep_langs abs_path =
     (let rel_path = os_path_relpath abs_path root_dir;
          langs = detect_languages U (fst (splitext (last abs_path)))
      in if should_keep langs keep_langs then KeepLine rel_path langs
         else MoveLine rel_path (fst (plan_dest_paths_for_sort root_dir rel_path)) langs)"

text \<open>
  The same for a remerge pass: the files with a ROM extension in \<open>Moved ROMS\<close> or below
  it, and the line that the loop of \<open>do_remerge\<close> appends for one of them.
\<close>

definition remerge_candidates :: "unicode_db \<Rightarrow> 'c fs \<Rightarrow> path \<Rightarrow> path set" where
  "remerge_candidates U fs root_dir =
     {p. is_file fs p \<and> prefix (root_dir @ [MOVED_ROMS]) (butlast p) \<and> has_rom_ext U (last p)}"

definition remerge_allows :: "unicode_db \<Rightarrow> pystr set \<Rightarrow> path \<Rightarrow> bool" where
  "remerge_allows U keep_langs abs_path =
     allow_back (detect_languages U (fst (splitext (last abs_path)))) keep_langs"

definition remerge_line :: "unicode_db \<Rightarrow> path \<Rightarrow> pystr set \<Rightarrow> path \<Rightarrow> log_line" where
  "remerge_line U root_dir keep_langs abs_path =
     (let rel_from_moved = os_path_relpath abs_path (root_dir @ [MOVED_ROMS]);
          langs = detect_languages U (fst (splitext (last abs_path)))
      in if allow_back langs keep_langs
         then RemergeLine rel_from_moved
                (fst (plan_dest_paths_for_remerge root_dir rel_from_moved)) langs
         else SkipLine rel_from_moved langs)"

section \<open>Tables and trees for the examples\<close>

text \<open>
  The examples evaluate the definitions on ASCII names. \<open>ascii_only\<close> is a table under
  which no code point from 128 on is a word character, a space or a digit, and each is
  equal only to itself when case is ignored; on ASCII input the choice does not matter.
\<close>

definition ascii_only :: unicode_db where
  "ascii_only =
     \<lparr>uni_word = (\<lambda>c. False), uni_space = (\<lambda>c. False), uni_decimal = (\<lambda>c. False),
      uni_caseless = (\<lambda>p c. p = c), uni_lower = (\<lambda>s. s)\<rparr>"

text \<open>
  \<open>ideographs\<close> is \<open>ascii_only\<close> with the CJK unified ideographs (code points 19968 to
  40959) as word characters, which they are for \<open>\w\<close>.
\<close>

definition ideographs :: unicode_db where
  "ideographs = ascii_only\<lparr>uni_word := (\<lambda>c. 19968 \<le> c \<and> c \<le> 40959)\<rparr>"

text \<open>
  A tree in which two files named \<open>J.bin\<close> are sent to the same place, and the trees
  after the first and after the second move.
\<close>

definition clash_fs :: "nat fs" where
  "clash_fs =
     \<lparr>files = [([u ''r'', u ''J.bin''], 2), ([u ''r'', u ''d'', u ''J.bin''], 3),
               ([u ''r'', u ''U.bin''], 1)],
      dirs = [[u ''r''], [u ''r'', u ''d'']]\<rparr>"

definition clash_fs1 :: "nat fs" where
  "clash_fs1 =
     \<lparr>files = [([u ''r'', u ''d'', u ''J.bin''], 3), ([u ''r'', u ''U.bin''], 1),
               ([u ''r'', MOVED_ROMS, u ''J.bin''], 2)],
      dirs = [[u ''r''], [u ''r'', u ''d''], [u ''r'', MOVED_ROMS]]\<rparr>"

definition clash_fs2 :: "nat fs" where
  "clash_fs2 =
     \<lparr>files = [([u ''r'', u ''U.bin''], 1), ([u ''r'', MOVED_ROMS, u ''J.bin''], 2),
               ([u ''r'', MOVED_ROMS, u ''J (1).bin''], 3)],
      dirs = [[u ''r''], [u ''r'', u ''d''], [u ''r'', MOVED_ROMS]]\<rparr>"

text \<open>
  A tree after a remerge that has taken every file back: the directories under
  \<open>Moved ROMS\<close> are left with no file in them. \<open>swept_fs\<close> is what the sweep makes of it.
\<close>

definition emptied_fs :: "nat fs" where
  "emptied_fs =
     \<lparr>files = [([u ''r'', u ''snes'', u ''jp'', u ''J.sfc''], 7)],
      dirs = [[u ''r''], [u ''r'', u ''snes''], [u ''r'', u ''snes'', u ''jp''],
              [u ''r'', MOVED_ROMS], [u ''r'', MOVED_ROMS, u ''snes''],
              [u ''r'', MOVED_ROMS, u ''snes'', u ''jp'']]\<rparr>"

definition swept_fs :: "nat fs" where
  "swept_fs =
     \<lparr>files = [([u ''r'', u ''snes'', u ''jp'', u ''J.sfc''], 7)],
      dirs = [[u ''r''], [u ''r'', u ''snes''], [u ''r'', u ''snes'', u ''jp''],
              [u ''r'', MOVED_ROMS], [u ''r'', MOVED_ROMS, u ''snes'']]\<rparr>"

section \<open>Facts about the matcher\<close>

lemma length_u [simp]: "length (u w) = length w"
  by (simp add: u_def)

lemma re_search_iff: "re_search U pat s \<longleftrightarrow> (\<exists>i\<le>length s. ends U pat s i \<noteq> [])"
  by (simp add: re_search_def list_ex_iff Bex_def less_Suc_eq_le del: upt_Suc)

lemma nonempty_set: "xs \<noteq> [] \<longleftrightarrow> (\<exists>x. x \<in> set xs)"
  by (cases xs) auto

lemma in_ends_Seq:
  "j \<in> set (ends U (Seq a b) s i) \<longleftrightarrow> (\<exists>k. k \<in> set (ends U a s i) \<and> j \<in> set (ends U b s k))"
  by auto

lemma in_ends_Bound: "j \<in> set (ends U Bound s i) \<longleftrightarrow> j = i \<and> at_boundary U s i"
  by auto

lemma in_ends_Lit: "j \<in> set (ends U (Lit w) s i) \<longleftrightarrow> j = i + length w \<and> lit_at U w s i"
  by auto

lemma in_ends_Alts: "j \<in> set (ends U (Alts rs) s i) \<longleftrightarrow> (\<exists>r\<in>set rs. j \<in> set (ends U r s i))"
  by auto

lemma in_ends_words:
  "j \<in> set (ends U (words ws) s i) \<longleftrightarrow> (\<exists>w\<in>set ws. j = i + length w \<and> lit_at U w s i)"
  by (auto simp: words_def)

lemma in_ends_Eps: "j \<in> set (ends U Eps s i) \<longleftrightarrow> j = i"
  by auto

lemma in_ends_NotAhead: "j \<in> set (ends U (NotAhead r) s i) \<longleftrightarrow> j = i \<and> ends U r s i = []"
  by auto

lemma in_ends_Opt: "j \<in> set (ends U (Opt r) s i) \<longleftrightarrow> j = i \<or> j \<in> set (ends U r s i)"
  by auto

lemma in_ends_Atom:
  "j \<in> set (ends U (Atom a) s i) \<longleftrightarrow> j = Suc i \<and> i < length s \<and> atom_match U a (s ! i)"
  by auto

lemma takeWhile_len_ge:
  "n \<le> length (takeWhile P xs) \<longleftrightarrow> n \<le> length xs \<and> (\<forall>m<n. P (xs ! m))"
proof (induction xs arbitrary: n)
  case Nil
  then show ?case by auto
next
  case (Cons x xs)
  show ?case
  proof (cases n)
    case 0
    then show ?thesis by simp
  next
    case (Suc k)
    then show ?thesis
      using Cons.IH [of k] by (auto simp: less_Suc_eq_0_disj)
  qed
qed

lemma drop_all_nth:
  assumes "i \<le> j" "j \<le> length s"
  shows "(\<forall>m<j - i. P (drop i s ! m)) \<longleftrightarrow> (\<forall>m. i \<le> m \<and> m < j \<longrightarrow> P (s ! m))"
proof
  assume h: "\<forall>m<j - i. P (drop i s ! m)"
  show "\<forall>m. i \<le> m \<and> m < j \<longrightarrow> P (s ! m)"
  proof (intro allI impI)
    fix m assume m: "i \<le> m \<and> m < j"
    then have "m - i < j - i" by arith
    with h have "P (drop i s ! (m - i))" by blast
    moreover have "drop i s ! (m - i) = s ! m" using m assms by simp
    ultimately show "P (s ! m)" by simp
  qed
next
  assume h: "\<forall>m. i \<le> m \<and> m < j \<longrightarrow> P (s ! m)"
  show "\<forall>m<j - i. P (drop i s ! m)"
  proof (intro allI impI)
    fix m assume m: "m < j - i"
    then have "i \<le> i + m \<and> i + m < j" by arith
    with h have "P (s ! (i + m))" by blast
    moreover have "drop i s ! m = s ! (i + m)" using m assms by simp
    ultimately show "P (drop i s ! m)" by simp
  qed
qed

lemma in_ends_Star_len:
  "j \<in> set (ends U (Star a) s i) \<longleftrightarrow>
     i \<le> j \<and> j \<le> i + length (takeWhile (atom_match U a) (drop i s))"
  by auto

lemma in_ends_Plus_len:
  "j \<in> set (ends U (Plus a) s i) \<longleftrightarrow>
     i < j \<and> j \<le> i + length (takeWhile (atom_match U a) (drop i s))"
  using less_Suc_eq_le by (simp del: upt_Suc add: Suc_le_eq)

lemma run_len:
  assumes "i \<le> length s" "i \<le> j"
  shows "j \<le> i + length (takeWhile P (drop i s)) \<longleftrightarrow>
         j \<le> length s \<and> (\<forall>m. i \<le> m \<and> m < j \<longrightarrow> P (s ! m))"
proof -
  have "j \<le> i + length (takeWhile P (drop i s)) \<longleftrightarrow> j - i \<le> length (takeWhile P (drop i s))"
    using assms(2) by (simp add: le_diff_conv add.commute)
  also have "\<dots> \<longleftrightarrow> j - i \<le> length (drop i s) \<and> (\<forall>m<j - i. P (drop i s ! m))"
    by (rule takeWhile_len_ge)
  also have "\<dots> \<longleftrightarrow> j \<le> length s \<and> (\<forall>m. i \<le> m \<and> m < j \<longrightarrow> P (s ! m))"
  proof (cases "j \<le> length s")
    case le: True
    have "j - i \<le> length (drop i s)" using le by simp
    then show ?thesis using drop_all_nth [OF assms(2) le] le by simp
  next
    case gt: False
    have "\<not> j - i \<le> length (drop i s)" using gt assms by simp
    then show ?thesis using gt by simp
  qed
  finally show ?thesis .
qed

lemma in_ends_Star:
  assumes "i \<le> length s"
  shows "j \<in> set (ends U (Star a) s i) \<longleftrightarrow>
         i \<le> j \<and> j \<le> length s \<and> (\<forall>m. i \<le> m \<and> m < j \<longrightarrow> atom_match U a (s ! m))"
  using run_len [OF assms, of j] by (auto simp only: in_ends_Star_len)

lemma in_ends_Plus:
  assumes "i \<le> length s"
  shows "j \<in> set (ends U (Plus a) s i) \<longleftrightarrow>
         i < j \<and> j \<le> length s \<and> (\<forall>m. i \<le> m \<and> m < j \<longrightarrow> atom_match U a (s ! m))"
  using run_len [OF assms, of j] by (auto simp only: in_ends_Plus_len)

lemma detect_iff:
  "c \<in> detect_languages U s \<longleftrightarrow>
     (\<exists>ps. (c, ps) \<in> set LANGUAGE_PATTERNS \<and> (\<exists>p\<in>set ps. re_search U p s))"
  by (force simp: detect_languages_def list_ex_iff)

lemma token_at_le: "token_at U w s i \<Longrightarrow> i \<le> length s \<and> i + length w \<le> length s"
  by (simp add: token_at_def lit_at_def)

lemma in_ends_word_group:
  "j \<in> set (ends U (seqs [Bound, words ws, Bound]) s i) \<longleftrightarrow>
     (\<exists>w\<in>set ws. j = i + length w \<and> token_at U w s i)"
  by (auto simp: token_at_def in_ends_words)

lemma search_word_group:
  "re_search U (seqs [Bound, words ws, Bound]) s \<longleftrightarrow> (\<exists>w\<in>set ws. \<exists>i. token_at U w s i)"
proof
  assume "re_search U (seqs [Bound, words ws, Bound]) s"
  then obtain i j where "j \<in> set (ends U (seqs [Bound, words ws, Bound]) s i)"
    unfolding re_search_iff nonempty_set by blast
  then show "\<exists>w\<in>set ws. \<exists>i. token_at U w s i"
    unfolding in_ends_word_group by blast
next
  assume "\<exists>w\<in>set ws. \<exists>i. token_at U w s i"
  then obtain w i where w: "w \<in> set ws" "token_at U w s i" by blast
  then have "i + length w \<in> set (ends U (seqs [Bound, words ws, Bound]) s i)"
    unfolding in_ends_word_group by blast
  moreover have "i \<le> length s" using token_at_le [OF w(2)] by simp
  ultimately show "re_search U (seqs [Bound, words ws, Bound]) s"
    unfolding re_search_iff nonempty_set by blast
qed

lemma lit_at_le: "lit_at U w s i \<Longrightarrow> i \<le> length s"
  by (simp add: lit_at_def)

lemma search_Lit: "re_search U (Lit w) s \<longleftrightarrow> (\<exists>i. lit_at U w s i)"
  unfolding re_search_iff nonempty_set in_ends_Lit
  using lit_at_le by blast

lemma ends_seqs_suffix:
  "j \<in> set (ends U (seqs (rs @ ts)) s i) \<Longrightarrow> \<exists>k. j \<in> set (ends U (seqs ts) s k)"
  by (induction rs arbitrary: i) auto

lemma search_seqs_suffix:
  assumes "re_search U (seqs (rs @ [Bound, words ws, Bound])) s"
  shows "\<exists>w\<in>set ws. \<exists>i. token_at U w s i"
proof -
  obtain i j where "j \<in> set (ends U (seqs (rs @ [Bound, words ws, Bound])) s i)"
    using assms unfolding re_search_iff nonempty_set by blast
  then obtain k where "j \<in> set (ends U (seqs [Bound, words ws, Bound]) s k)"
    using ends_seqs_suffix by blast
  then show ?thesis unfolding in_ends_word_group by blast
qed

lemma tag_distinct:
  "distinct (map fst LANGUAGE_PATTERNS)"
  by (simp add: LANGUAGE_PATTERNS_def u_def)

lemma detect_lookup:
  assumes "(c, ps) \<in> set LANGUAGE_PATTERNS"
  shows "c \<in> detect_languages U s \<longleftrightarrow> (\<exists>p\<in>set ps. re_search U p s)"
proof -
  have "ps' = ps" if "(c, ps') \<in> set LANGUAGE_PATTERNS" for ps'
    using tag_distinct assms that by (meson eq_key_imp_eq_value)
  then show ?thesis unfolding detect_iff using assms by blast
qed

lemma tag_en:
  "u ''en'' \<in> detect_languages U s \<longleftrightarrow>
     (\<exists>w\<in>set [u ''USA'', u ''U'', u ''En'', u ''Eng'', u ''English'', u ''World'']. \<exists>i. token_at U w s i)"
proof -
  have p3: "re_search U (seqs [Bound, words [u ''Europe''], Bound, Star Dot, Bound, en_tokens, Bound]) s
      \<Longrightarrow> \<exists>w\<in>set [u ''En'', u ''Eng'', u ''English'']. \<exists>i. token_at U w s i"
    using search_seqs_suffix [of U "[Bound, words [u ''Europe''], Bound, Star Dot]"
        "[u ''En'', u ''Eng'', u ''English'']" s]
    by (simp add: en_tokens_def)
  have p5: "re_search U (seqs [Bound, Alts [seqs [Lit (u ''USA,''), Opt (Atom Space), Lit (u ''Europe'')]], Bound,
            Star Dot, Bound, words [u ''En''], Bound]) s
      \<Longrightarrow> \<exists>w\<in>set [u ''En'']. \<exists>i. token_at U w s i"
    using search_seqs_suffix [of U "[Bound, Alts [seqs [Lit (u ''USA,''), Opt (Atom Space), Lit (u ''Europe'')]], Bound, Star Dot]"
        "[u ''En'']" s]
    by simp
  have "(u ''en'', en_patterns) \<in> set LANGUAGE_PATTERNS"
    by (simp add: LANGUAGE_PATTERNS_def)
  from detect_lookup [OF this]
  have "u ''en'' \<in> detect_languages U s \<longleftrightarrow> (\<exists>p\<in>set en_patterns. re_search U p s)" .
  also have "\<dots> \<longleftrightarrow> (\<exists>w\<in>set [u ''USA'', u ''U'', u ''En'', u ''Eng'', u ''English'', u ''World'']. \<exists>i. token_at U w s i)"
    unfolding en_patterns_def using p3 p5
    by (auto simp only: set_simps bex_simps insert_iff search_word_group en_tokens_def)
  finally show ?thesis .
qed


lemma tag_fr:
  "u ''fr'' \<in> detect_languages U s \<longleftrightarrow>
     (\<exists>w\<in>set [u ''Fr'', u ''FRA'', u ''French'', u ''Francais'', u ''Fran'' @ [231] @ u ''ais'']. \<exists>i. token_at U w s i)"
proof -
  have "(u ''fr'', fr_patterns) \<in> set LANGUAGE_PATTERNS"
    by (simp add: LANGUAGE_PATTERNS_def)
  from detect_lookup [OF this] show ?thesis
    unfolding fr_patterns_def
    by (simp only: set_simps bex_simps insert_iff search_word_group) simp
qed

lemma tag_de:
  "u ''de'' \<in> detect_languages U s \<longleftrightarrow>
     (\<exists>w\<in>set [u ''De'', u ''Ger'', u ''German'', u ''Deutsch'']. \<exists>i. token_at U w s i)"
proof -
  have "(u ''de'', de_patterns) \<in> set LANGUAGE_PATTERNS"
    by (simp add: LANGUAGE_PATTERNS_def)
  from detect_lookup [OF this] show ?thesis
    unfolding de_patterns_def
    by (simp only: set_simps bex_simps insert_iff search_word_group) simp
qed

lemma tag_es:
  "u ''es'' \<in> detect_languages U s \<longleftrightarrow>
     (\<exists>w\<in>set [u ''ES'', u ''Spa'', u ''Spanish'', u ''Espa'' @ [241] @ u ''ol'', u ''Espanol'', u ''Castellano'']. \<exists>i. token_at U w s i)"
proof -
  have "(u ''es'', es_patterns) \<in> set LANGUAGE_PATTERNS"
    by (simp add: LANGUAGE_PATTERNS_def)
  from detect_lookup [OF this] show ?thesis
    unfolding es_patterns_def
    by (simp only: set_simps bex_simps insert_iff search_word_group) simp
qed

lemma tag_it:
  "u ''it'' \<in> detect_languages U s \<longleftrightarrow>
     (\<exists>w\<in>set [u ''ITA'', u ''It'', u ''Italian'', u ''Italiano'']. \<exists>i. token_at U w s i)"
proof -
  have "(u ''it'', it_patterns) \<in> set LANGUAGE_PATTERNS"
    by (simp add: LANGUAGE_PATTERNS_def)
  from detect_lookup [OF this] show ?thesis
    unfolding it_patterns_def
    by (simp only: set_simps bex_simps insert_iff search_word_group) simp
qed

lemma tag_ru:
  "u ''ru'' \<in> detect_languages U s \<longleftrightarrow>
     (\<exists>w\<in>set [u ''RU'', u ''Rus'', u ''Russian'', [1056, 1091, 1089, 1089, 1082, 1080, 1081]]. \<exists>i. token_at U w s i)"
proof -
  have "(u ''ru'', ru_patterns) \<in> set LANGUAGE_PATTERNS"
    by (simp add: LANGUAGE_PATTERNS_def)
  from detect_lookup [OF this] show ?thesis
    unfolding ru_patterns_def
    by (simp only: set_simps bex_simps insert_iff search_word_group) simp
qed

lemma tag_jp:
  "u ''jp'' \<in> detect_languages U s \<longleftrightarrow>
     (\<exists>w\<in>set [u ''JPN'', u ''Japan'', u ''J'']. \<exists>i. token_at U w s i) \<or>
     (\<exists>w\<in>set [[26085, 26412, 35486], [26085, 25991]]. \<exists>i. lit_at U w s i)"
proof -
  have "(u ''jp'', jp_patterns) \<in> set LANGUAGE_PATTERNS"
    by (simp add: LANGUAGE_PATTERNS_def)
  from detect_lookup [OF this] show ?thesis
    unfolding jp_patterns_def
    by (simp only: set_simps bex_simps insert_iff search_word_group search_Lit)
qed

lemma tag_ko:
  "u ''ko'' \<in> detect_languages U s \<longleftrightarrow>
     (\<exists>w\<in>set [u ''KOR'', u ''Korea'', u ''Korean'']. \<exists>i. token_at U w s i) \<or>
     (\<exists>w\<in>set [[54620, 44397, 50612], [54620, 44544]]. \<exists>i. lit_at U w s i)"
proof -
  have "(u ''ko'', ko_patterns) \<in> set LANGUAGE_PATTERNS"
    by (simp add: LANGUAGE_PATTERNS_def)
  from detect_lookup [OF this] show ?thesis
    unfolding ko_patterns_def
    by (simp only: set_simps bex_simps insert_iff search_word_group search_Lit)
qed

lemma tag_zh:
  "u ''zh'' \<in> detect_languages U s \<longleftrightarrow>
     (\<exists>w\<in>set [u ''CHN'', u ''China'', u ''Chinese'']. \<exists>i. token_at U w s i) \<or>
     (\<exists>w\<in>set [[20013, 25991, 29256], [20013, 25991], [27721, 21270]]. \<exists>i. lit_at U w s i)"
proof -
  have "(u ''zh'', zh_patterns) \<in> set LANGUAGE_PATTERNS"
    by (simp add: LANGUAGE_PATTERNS_def)
  from detect_lookup [OF this] show ?thesis
    unfolding zh_patterns_def
    by (simp only: set_simps bex_simps insert_iff search_word_group search_Lit)
qed

lemma group_tokens:
  assumes "\<And>i j. j \<in> set (ends U R s i) \<longleftrightarrow> (\<exists>w\<in>set ws. j = i + length w \<and> lit_at U w s i)"
  shows "re_search U (seqs [Bound, R, Bound]) s \<longleftrightarrow> (\<exists>w\<in>set ws. \<exists>i. token_at U w s i)"
proof -
  have m: "j \<in> set (ends U (seqs [Bound, R, Bound]) s i) \<longleftrightarrow>
        (\<exists>w\<in>set ws. j = i + length w \<and> token_at U w s i)" for i j
    using assms by (auto simp: token_at_def)
  show ?thesis
  proof
    assume "re_search U (seqs [Bound, R, Bound]) s"
    then obtain i j where "j \<in> set (ends U (seqs [Bound, R, Bound]) s i)"
      unfolding re_search_iff nonempty_set by blast
    then show "\<exists>w\<in>set ws. \<exists>i. token_at U w s i"
      unfolding m by blast
  next
    assume "\<exists>w\<in>set ws. \<exists>i. token_at U w s i"
    then obtain w i where w: "w \<in> set ws" "token_at U w s i" by blast
    then have "i + length w \<in> set (ends U (seqs [Bound, R, Bound]) s i)"
      unfolding m by blast
    moreover have "i \<le> length s" using token_at_le [OF w(2)] by simp
    ultimately show "re_search U (seqs [Bound, R, Bound]) s"
      unfolding re_search_iff nonempty_set by blast
  qed
qed

lemma lit_at_append:
  "lit_at U (a @ b) s i \<longleftrightarrow> lit_at U a s i \<and> lit_at U b s (i + length a)"
proof (cases "i + length a + length b \<le> length s")
  case False
  then show ?thesis by (auto simp: lit_at_def)
next
  case True
  have t: "take (length a + length b) (drop i s) =
        take (length a) (drop i s) @ take (length b) (drop (i + length a) s)"
    by (simp add: take_add add.commute)
  have l: "length (take (length a) (drop i s)) = length a"
    using True by simp
  show ?thesis
    using True l by (simp add: lit_at_def t list_all2_append)
qed

lemma lit_at_single: "lit_at U [c] s i \<longleftrightarrow> i < length s \<and> ci_eq U c (s ! i)"
proof (cases "i < length s")
  case False
  then show ?thesis by (simp add: lit_at_def)
next
  case True
  then have "take (Suc 0) (drop i s) = [s ! i]"
    by (simp add: take_Suc_conv_app_nth)
  then show ?thesis using True by (simp add: lit_at_def)
qed

lemma portugues_split:
  "u ''Portugues'' = u ''Portugu'' @ [101] @ u ''s''"
  by (simp add: u_def)

lemma in_ends_pt:
  "j \<in> set (ends U (Alts [Lit (u ''PT''),
                  seqs [Lit (u ''Portugu''), Atom (Class [CChr 101, CChr 234]), Lit (u ''s'')],
                  Lit (u ''Brazil''), Lit (u ''BR'')]) s i) \<longleftrightarrow>
   (\<exists>w\<in>set [u ''PT'', u ''Portugues'', u ''Portugu'' @ [234] @ u ''s'', u ''Brazil'', u ''BR''].
      j = i + length w \<and> lit_at U w s i)"
proof -
  have "j \<in> set (ends U (seqs [Lit (u ''Portugu''), Atom (Class [CChr 101, CChr 234]), Lit (u ''s'')]) s i)
      \<longleftrightarrow> j = i + 9 \<and> (lit_at U (u ''Portugu'' @ [101] @ u ''s'') s i \<or>
                         lit_at U (u ''Portugu'' @ [234] @ u ''s'') s i)"
    unfolding lit_at_append lit_at_single
    by (auto simp: lit_at_single)
  then show ?thesis
    unfolding portugues_split by auto
qed

lemma tag_pt:
  "u ''pt'' \<in> detect_languages U s \<longleftrightarrow>
     (\<exists>w\<in>set [u ''PT'', u ''Portugues'', u ''Portugu'' @ [234] @ u ''s'', u ''Brazil'', u ''BR''].
        \<exists>i. token_at U w s i)"
proof -
  have "(u ''pt'', pt_patterns) \<in> set LANGUAGE_PATTERNS"
    by (simp add: LANGUAGE_PATTERNS_def)
  from detect_lookup [OF this] show ?thesis
    unfolding pt_patterns_def
    using group_tokens [of U _ s, OF in_ends_pt]
    by simp
qed

lemma run_of_iff:
  "run_of P s a b \<longleftrightarrow> a < b \<and> b \<le> length s \<and> (\<forall>m. a \<le> m \<and> m < b \<longrightarrow> P (s ! m))"
  by (auto simp: run_of_def list_all_iff)

lemma in_ends_Plus_run:
  "j \<in> set (ends U (Plus a) s i) \<longleftrightarrow> run_of (atom_match U a) s i j"
proof (cases "i \<le> length s")
  case True
  then show ?thesis by (simp only: in_ends_Plus run_of_iff)
next
  case False
  then show ?thesis unfolding in_ends_Plus_len run_of_iff by auto
qed

lemma atom_digit: "atom_match U (Class [CDigit]) = is_digit U"
  by (rule ext) simp

lemma atom_range: "atom_match U (Class [CRange 48 57]) = (\<lambda>c. 48 \<le> c \<and> c \<le> 57)"
  by (rule ext) simp

lemma in_ends_multi:
  "j \<in> set (ends U (seqs [Bound,
            Alts [seqs [Lit (u ''Multi''), Opt (Atom Space), Plus (Class [CDigit])],
                  seqs [Lit (u ''M''), Plus (Class [CRange 48 57])]],
            Bound]) s i) \<longleftrightarrow> multi_token_at U s i j"
proof -
  have five: "length (u ''Multi'') = 5" and one: "length (u ''M'') = 1"
    by simp_all
  have a: "k \<in> set (ends U (seqs [Lit (u ''Multi''), Opt (Atom Space), Plus (Class [CDigit])]) s i) \<longleftrightarrow>
      lit_at U (u ''Multi'') s i \<and>
         (run_of (is_digit U) s (i + 5) k \<or>
          i + 5 < length s \<and> is_space U (s ! (i + 5)) \<and> run_of (is_digit U) s (i + 6) k)" for k
    unfolding seqs.simps in_ends_Seq in_ends_Lit in_ends_Opt in_ends_Atom in_ends_Plus_run
      in_ends_Eps atom_digit five atom_match.simps
    by (auto simp del: ends.simps simp add: numeral_eq_Suc)
  have b: "k \<in> set (ends U (seqs [Lit (u ''M''), Plus (Class [CRange 48 57])]) s i) \<longleftrightarrow>
      lit_at U (u ''M'') s i \<and> run_of (\<lambda>c. 48 \<le> c \<and> c \<le> 57) s (i + 1) k" for k
    unfolding seqs.simps in_ends_Seq in_ends_Lit in_ends_Plus_run in_ends_Eps atom_range one
    by (auto simp del: ends.simps)
  have "j \<in> set (ends U (seqs [Bound,
            Alts [seqs [Lit (u ''Multi''), Opt (Atom Space), Plus (Class [CDigit])],
                  seqs [Lit (u ''M''), Plus (Class [CRange 48 57])]],
            Bound]) s i) \<longleftrightarrow>
       at_boundary U s i \<and> at_boundary U s j \<and>
       (j \<in> set (ends U (seqs [Lit (u ''Multi''), Opt (Atom Space), Plus (Class [CDigit])]) s i) \<or>
        j \<in> set (ends U (seqs [Lit (u ''M''), Plus (Class [CRange 48 57])]) s i))"
    unfolding seqs.simps(2) [of Bound] seqs.simps(2) [of "Alts _"] seqs.simps(1)
      in_ends_Seq [of _ _ Bound] in_ends_Seq [of _ _ "Alts _"] in_ends_Bound in_ends_Alts
      in_ends_Eps
    by (auto simp del: ends.simps seqs.simps)
  then show ?thesis
    unfolding a b multi_token_at_def by blast
qed

lemma tag_multi:
  "u ''multi'' \<in> detect_languages U s \<longleftrightarrow> (\<exists>i j. multi_token_at U s i j)"
proof -
  have le: "multi_token_at U s i j \<Longrightarrow> i \<le> length s" for i j
    by (auto simp: multi_token_at_def dest: lit_at_le)
  have "(u ''multi'', multi_patterns) \<in> set LANGUAGE_PATTERNS"
    by (simp add: LANGUAGE_PATTERNS_def)
  from detect_lookup [OF this]
  have "u ''multi'' \<in> detect_languages U s \<longleftrightarrow> (\<exists>p\<in>set multi_patterns. re_search U p s)" .
  also have "\<dots> \<longleftrightarrow> (\<exists>i\<le>length s. \<exists>j. multi_token_at U s i j)"
    unfolding multi_patterns_def
    by (simp only: set_simps bex_simps insert_iff re_search_iff nonempty_set in_ends_multi) simp
  also have "\<dots> \<longleftrightarrow> (\<exists>i j. multi_token_at U s i j)"
    using le by blast
  finally show ?thesis .
qed

lemma english_follows_iff:
  "english_follows U s j \<longleftrightarrow>
     (\<exists>k. j \<le> k \<and> k \<le> length s \<and> (\<forall>m. j \<le> m \<and> m < k \<longrightarrow> s ! m \<noteq> 10) \<and>
          (\<exists>w\<in>set [u ''En'', u ''Eng'', u ''English'']. token_at U w s k))"
proof -
  have "english_follows U s j \<longleftrightarrow>
     (\<exists>k\<in>{j..<Suc (length s)}. (\<forall>m\<in>{j..<k}. s ! m \<noteq> 10) \<and>
          (\<exists>w\<in>set [u ''En'', u ''Eng'', u ''English'']. token_at U w s k))"
    unfolding english_follows_def list_ex_iff list_all_iff set_upt ..
  also have "\<dots> \<longleftrightarrow> (\<exists>k. j \<le> k \<and> k \<le> length s \<and> (\<forall>m. j \<le> m \<and> m < k \<longrightarrow> s ! m \<noteq> 10) \<and>
          (\<exists>w\<in>set [u ''En'', u ''Eng'', u ''English'']. token_at U w s k))"
    unfolding Bex_def Ball_def atLeastLessThan_iff less_Suc_eq_le by blast
  finally show ?thesis .
qed


lemma ahead_english:
  assumes "j \<le> length s"
  shows "ends U (seqs [Star Dot, Bound, en_tokens, Bound]) s j \<noteq> [] \<longleftrightarrow> english_follows U s j"
proof -
  have "ends U (seqs [Star Dot, Bound, en_tokens, Bound]) s j \<noteq> [] \<longleftrightarrow>
      (\<exists>e k. k \<in> set (ends U (Star Dot) s j) \<and> e \<in> set (ends U (seqs [Bound, en_tokens, Bound]) s k))"
    unfolding nonempty_set seqs.simps(2) [of "Star Dot"] in_ends_Seq [of _ _ "Star Dot"] ..
  also have "\<dots> \<longleftrightarrow> (\<exists>k. k \<in> set (ends U (Star Dot) s j) \<and>
        (\<exists>w\<in>set [u ''En'', u ''Eng'', u ''English'']. token_at U w s k))"
    unfolding en_tokens_def in_ends_word_group by blast
  also have "\<dots> \<longleftrightarrow> english_follows U s j"
    unfolding english_follows_iff in_ends_Star [OF assms] atom_match.simps by blast
  finally show ?thesis .
qed


lemma in_ends_eu:
  "j \<in> set (ends U (seqs [Bound, words [u ''EUR'', u ''Europe'', u ''EU''], Bound,
            NotAhead (seqs [Star Dot, Bound, en_tokens, Bound])]) s i) \<longleftrightarrow>
   (\<exists>w\<in>set [u ''EUR'', u ''Europe'', u ''EU''].
      j = i + length w \<and> token_at U w s i \<and> \<not> english_follows U s (i + length w))"
proof -
  let ?A = "seqs [Star Dot, Bound, en_tokens, Bound]"
  let ?ws = "[u ''EUR'', u ''Europe'', u ''EU'']"
  have "j \<in> set (ends U (seqs [Bound, words ?ws, Bound, NotAhead ?A]) s i) \<longleftrightarrow>
     at_boundary U s i \<and> (\<exists>k. k \<in> set (ends U (words ?ws) s i) \<and> at_boundary U s k \<and>
        j = k \<and> ends U ?A s k = [])"
    unfolding seqs.simps(2) [of Bound] seqs.simps(2) [of "words _"] seqs.simps(2) [of "NotAhead _"]
      seqs.simps(1) in_ends_Seq [of _ _ Bound] in_ends_Seq [of _ _ "words _"]
      in_ends_Seq [of _ _ "NotAhead _"] in_ends_Bound in_ends_NotAhead in_ends_Eps
    by blast
  also have "\<dots> \<longleftrightarrow> (\<exists>w\<in>set ?ws.
        j = i + length w \<and> token_at U w s i \<and> ends U ?A s (i + length w) = [])"
    unfolding in_ends_words token_at_def by blast
  also have "\<dots> \<longleftrightarrow> (\<exists>w\<in>set ?ws.
      j = i + length w \<and> token_at U w s i \<and> \<not> english_follows U s (i + length w))"
  proof -
    have "ends U ?A s (i + length w) = [] \<longleftrightarrow> \<not> english_follows U s (i + length w)"
      if "token_at U w s i" for w
      using ahead_english [of "i + length w" s U] token_at_le [OF that] by blast
    then show ?thesis by blast
  qed
  finally show ?thesis .
qed

lemma tag_eu:
  "u ''eu'' \<in> detect_languages U s \<longleftrightarrow>
     (\<exists>w\<in>set [u ''EUR'', u ''Europe'', u ''EU''].
        \<exists>i. token_at U w s i \<and> \<not> english_follows U s (i + length w))"
proof -
  have "(u ''eu'', eu_patterns) \<in> set LANGUAGE_PATTERNS"
    by (simp add: LANGUAGE_PATTERNS_def)
  from detect_lookup [OF this]
  have "u ''eu'' \<in> detect_languages U s \<longleftrightarrow> (\<exists>p\<in>set eu_patterns. re_search U p s)" .
  also have "\<dots> \<longleftrightarrow> (\<exists>i\<le>length s. \<exists>j. j \<in> set (ends U (seqs [Bound, words [u ''EUR'', u ''Europe'', u ''EU''], Bound,
            NotAhead (seqs [Star Dot, Bound, en_tokens, Bound])]) s i))"
    unfolding eu_patterns_def
    by (simp only: set_simps bex_simps insert_iff re_search_iff nonempty_set) simp
  also have "\<dots> \<longleftrightarrow> (\<exists>w\<in>set [u ''EUR'', u ''Europe'', u ''EU''].
        \<exists>i. token_at U w s i \<and> \<not> english_follows U s (i + length w))"
    unfolding in_ends_eu using token_at_le by blast
  finally show ?thesis .
qed

lemma boundary_tokens_cases:
  assumes "(tag, ws) \<in> set boundary_tokens"
  shows "tag = u ''en'' \<and> ws = [u ''USA'', u ''U'', u ''En'', u ''Eng'', u ''English'', u ''World''] \<or>
         tag = u ''jp'' \<and> ws = [u ''JPN'', u ''Japan'', u ''J''] \<or>
         tag = u ''fr'' \<and> ws = [u ''Fr'', u ''FRA'', u ''French'', u ''Francais'', u ''Fran'' @ [231] @ u ''ais''] \<or>
         tag = u ''de'' \<and> ws = [u ''De'', u ''Ger'', u ''German'', u ''Deutsch''] \<or>
         tag = u ''es'' \<and> ws = [u ''ES'', u ''Spa'', u ''Spanish'', u ''Espa'' @ [241] @ u ''ol'', u ''Espanol'', u ''Castellano''] \<or>
         tag = u ''it'' \<and> ws = [u ''ITA'', u ''It'', u ''Italian'', u ''Italiano''] \<or>
         tag = u ''pt'' \<and> ws = [u ''PT'', u ''Portugues'', u ''Portugu'' @ [234] @ u ''s'', u ''Brazil'', u ''BR''] \<or>
         tag = u ''ru'' \<and> ws = [u ''RU'', u ''Rus'', u ''Russian'', [1056, 1091, 1089, 1089, 1082, 1080, 1081]] \<or>
         tag = u ''ko'' \<and> ws = [u ''KOR'', u ''Korea'', u ''Korean''] \<or>
         tag = u ''zh'' \<and> ws = [u ''CHN'', u ''China'', u ''Chinese''] \<or>
         tag = u ''eu'' \<and> ws = [u ''EUR'', u ''Europe'', u ''EU'']"
  using assms unfolding boundary_tokens_def
  by (simp only: set_simps insert_iff empty_iff prod.inject simp_thms)

lemma bare_tokens_cases:
  assumes "(tag, ws) \<in> set bare_tokens"
  shows "tag = u ''jp'' \<and> ws = [[26085, 26412, 35486], [26085, 25991]] \<or>
         tag = u ''ko'' \<and> ws = [[54620, 44397, 50612], [54620, 44544]] \<or>
         tag = u ''zh'' \<and> ws = [[20013, 25991, 29256], [20013, 25991], [27721, 21270]]"
  using assms unfolding bare_tokens_def
  by (simp only: set_simps insert_iff empty_iff prod.inject simp_thms)

lemma boundary_tokens_en: "(u ''en'', [u ''USA'', u ''U'', u ''En'', u ''Eng'', u ''English'', u ''World'']) \<in> set boundary_tokens"
  unfolding boundary_tokens_def by simp

lemma boundary_tokens_jp: "(u ''jp'', [u ''JPN'', u ''Japan'', u ''J'']) \<in> set boundary_tokens"
  unfolding boundary_tokens_def by simp

lemma boundary_tokens_fr: "(u ''fr'', [u ''Fr'', u ''FRA'', u ''French'', u ''Francais'', u ''Fran'' @ [231] @ u ''ais'']) \<in> set boundary_tokens"
  unfolding boundary_tokens_def by simp

lemma boundary_tokens_de: "(u ''de'', [u ''De'', u ''Ger'', u ''German'', u ''Deutsch'']) \<in> set boundary_tokens"
  unfolding boundary_tokens_def by simp

lemma boundary_tokens_es: "(u ''es'', [u ''ES'', u ''Spa'', u ''Spanish'', u ''Espa'' @ [241] @ u ''ol'', u ''Espanol'', u ''Castellano'']) \<in> set boundary_tokens"
  unfolding boundary_tokens_def by simp

lemma boundary_tokens_it: "(u ''it'', [u ''ITA'', u ''It'', u ''Italian'', u ''Italiano'']) \<in> set boundary_tokens"
  unfolding boundary_tokens_def by simp

lemma boundary_tokens_pt: "(u ''pt'', [u ''PT'', u ''Portugues'', u ''Portugu'' @ [234] @ u ''s'', u ''Brazil'', u ''BR'']) \<in> set boundary_tokens"
  unfolding boundary_tokens_def by simp

lemma boundary_tokens_ru: "(u ''ru'', [u ''RU'', u ''Rus'', u ''Russian'', [1056, 1091, 1089, 1089, 1082, 1080, 1081]]) \<in> set boundary_tokens"
  unfolding boundary_tokens_def by simp

lemma boundary_tokens_ko: "(u ''ko'', [u ''KOR'', u ''Korea'', u ''Korean'']) \<in> set boundary_tokens"
  unfolding boundary_tokens_def by simp

lemma boundary_tokens_zh: "(u ''zh'', [u ''CHN'', u ''China'', u ''Chinese'']) \<in> set boundary_tokens"
  unfolding boundary_tokens_def by simp

lemma boundary_tokens_eu: "(u ''eu'', [u ''EUR'', u ''Europe'', u ''EU'']) \<in> set boundary_tokens"
  unfolding boundary_tokens_def by simp

lemma bare_tokens_jp: "(u ''jp'', [[26085, 26412, 35486], [26085, 25991]]) \<in> set bare_tokens"
  unfolding bare_tokens_def by simp

lemma bare_tokens_ko: "(u ''ko'', [[54620, 44397, 50612], [54620, 44544]]) \<in> set bare_tokens"
  unfolding bare_tokens_def by simp

lemma bare_tokens_zh: "(u ''zh'', [[20013, 25991, 29256], [20013, 25991], [27721, 21270]]) \<in> set bare_tokens"
  unfolding bare_tokens_def by simp

lemma tags_of_table:
  "map fst LANGUAGE_PATTERNS =
     [u ''en'', u ''jp'', u ''fr'', u ''de'', u ''es'', u ''it'', u ''pt'', u ''ru'',
      u ''ko'', u ''zh'', u ''multi'', u ''eu'']"
  unfolding LANGUAGE_PATTERNS_def by simp

lemma detect_known_tag:
  assumes "tag \<in> detect_languages U s"
  shows "tag = u ''en'' \<or> tag = u ''jp'' \<or> tag = u ''fr'' \<or> tag = u ''de'' \<or> tag = u ''es'' \<or> tag = u ''it'' \<or> tag = u ''pt'' \<or> tag = u ''ru'' \<or> tag = u ''ko'' \<or> tag = u ''zh'' \<or> tag = u ''multi'' \<or> tag = u ''eu''"
proof -
  obtain ps where "(tag, ps) \<in> set LANGUAGE_PATTERNS"
    using assms unfolding detect_iff by blast
  then have "tag \<in> set (map fst LANGUAGE_PATTERNS)"
    by (metis fst_conv image_eqI set_map)
  then show ?thesis
    unfolding tags_of_table by (simp only: set_simps insert_iff empty_iff simp_thms)
qed

lemma token_gives_tag:
  assumes "(tag, ws) \<in> set boundary_tokens" and "w \<in> set ws" and "token_at U w s i"
    and "tag = u ''eu'' \<longrightarrow> \<not> english_follows U s (i + length w)"
  shows "tag \<in> detect_languages U s"
  using boundary_tokens_cases [OF assms(1)]
proof (elim disjE conjE)
  assume t: "tag = u ''en''" and l: "ws = [u ''USA'', u ''U'', u ''En'', u ''Eng'', u ''English'', u ''World'']"
  have "\<exists>w\<in>set [u ''USA'', u ''U'', u ''En'', u ''Eng'', u ''English'', u ''World'']. \<exists>i. token_at U w s i"
    using assms(2,3) l by blast
  then show ?thesis unfolding t tag_en by (rule disjI1 | assumption)
next
  assume t: "tag = u ''jp''" and l: "ws = [u ''JPN'', u ''Japan'', u ''J'']"
  have "\<exists>w\<in>set [u ''JPN'', u ''Japan'', u ''J'']. \<exists>i. token_at U w s i"
    using assms(2,3) l by blast
  then show ?thesis unfolding t tag_jp by (rule disjI1 | assumption)
next
  assume t: "tag = u ''fr''" and l: "ws = [u ''Fr'', u ''FRA'', u ''French'', u ''Francais'', u ''Fran'' @ [231] @ u ''ais'']"
  have "\<exists>w\<in>set [u ''Fr'', u ''FRA'', u ''French'', u ''Francais'', u ''Fran'' @ [231] @ u ''ais'']. \<exists>i. token_at U w s i"
    using assms(2,3) l by blast
  then show ?thesis unfolding t tag_fr by (rule disjI1 | assumption)
next
  assume t: "tag = u ''de''" and l: "ws = [u ''De'', u ''Ger'', u ''German'', u ''Deutsch'']"
  have "\<exists>w\<in>set [u ''De'', u ''Ger'', u ''German'', u ''Deutsch'']. \<exists>i. token_at U w s i"
    using assms(2,3) l by blast
  then show ?thesis unfolding t tag_de by (rule disjI1 | assumption)
next
  assume t: "tag = u ''es''" and l: "ws = [u ''ES'', u ''Spa'', u ''Spanish'', u ''Espa'' @ [241] @ u ''ol'', u ''Espanol'', u ''Castellano'']"
  have "\<exists>w\<in>set [u ''ES'', u ''Spa'', u ''Spanish'', u ''Espa'' @ [241] @ u ''ol'', u ''Espanol'', u ''Castellano'']. \<exists>i. token_at U w s i"
    using assms(2,3) l by blast
  then show ?thesis unfolding t tag_es by (rule disjI1 | assumption)
next
  assume t: "tag = u ''it''" and l: "ws = [u ''ITA'', u ''It'', u ''Italian'', u ''Italiano'']"
  have "\<exists>w\<in>set [u ''ITA'', u ''It'', u ''Italian'', u ''Italiano'']. \<exists>i. token_at U w s i"
    using assms(2,3) l by blast
  then show ?thesis unfolding t tag_it by (rule disjI1 | assumption)
next
  assume t: "tag = u ''pt''" and l: "ws = [u ''PT'', u ''Portugues'', u ''Portugu'' @ [234] @ u ''s'', u ''Brazil'', u ''BR'']"
  have "\<exists>w\<in>set [u ''PT'', u ''Portugues'', u ''Portugu'' @ [234] @ u ''s'', u ''Brazil'', u ''BR'']. \<exists>i. token_at U w s i"
    using assms(2,3) l by blast
  then show ?thesis unfolding t tag_pt by (rule disjI1 | assumption)
next
  assume t: "tag = u ''ru''" and l: "ws = [u ''RU'', u ''Rus'', u ''Russian'', [1056, 1091, 1089, 1089, 1082, 1080, 1081]]"
  have "\<exists>w\<in>set [u ''RU'', u ''Rus'', u ''Russian'', [1056, 1091, 1089, 1089, 1082, 1080, 1081]]. \<exists>i. token_at U w s i"
    using assms(2,3) l by blast
  then show ?thesis unfolding t tag_ru by (rule disjI1 | assumption)
next
  assume t: "tag = u ''ko''" and l: "ws = [u ''KOR'', u ''Korea'', u ''Korean'']"
  have "\<exists>w\<in>set [u ''KOR'', u ''Korea'', u ''Korean'']. \<exists>i. token_at U w s i"
    using assms(2,3) l by blast
  then show ?thesis unfolding t tag_ko by (rule disjI1 | assumption)
next
  assume t: "tag = u ''zh''" and l: "ws = [u ''CHN'', u ''China'', u ''Chinese'']"
  have "\<exists>w\<in>set [u ''CHN'', u ''China'', u ''Chinese'']. \<exists>i. token_at U w s i"
    using assms(2,3) l by blast
  then show ?thesis unfolding t tag_zh by (rule disjI1 | assumption)
next
  assume t: "tag = u ''eu''" and l: "ws = [u ''EUR'', u ''Europe'', u ''EU'']"
  have "\<exists>w\<in>set [u ''EUR'', u ''Europe'', u ''EU'']. \<exists>i. token_at U w s i \<and> \<not> english_follows U s (i + length w)"
    using assms(2,3,4) l t by blast
  then show ?thesis unfolding t tag_eu by (rule disjI1 | assumption)
qed

lemma bare_gives_tag:
  assumes "(tag, ws) \<in> set bare_tokens" and "w \<in> set ws" and "lit_at U w s i"
  shows "tag \<in> detect_languages U s"
  using bare_tokens_cases [OF assms(1)]
proof (elim disjE conjE)
  assume t: "tag = u ''jp''" and l: "ws = [[26085, 26412, 35486], [26085, 25991]]"
  have "\<exists>w\<in>set [[26085, 26412, 35486], [26085, 25991]]. \<exists>i. lit_at U w s i"
    using assms(2,3) l by blast
  then show ?thesis unfolding t tag_jp by (rule disjI2)
next
  assume t: "tag = u ''ko''" and l: "ws = [[54620, 44397, 50612], [54620, 44544]]"
  have "\<exists>w\<in>set [[54620, 44397, 50612], [54620, 44544]]. \<exists>i. lit_at U w s i"
    using assms(2,3) l by blast
  then show ?thesis unfolding t tag_ko by (rule disjI2)
next
  assume t: "tag = u ''zh''" and l: "ws = [[20013, 25991, 29256], [20013, 25991], [27721, 21270]]"
  have "\<exists>w\<in>set [[20013, 25991, 29256], [20013, 25991], [27721, 21270]]. \<exists>i. lit_at U w s i"
    using assms(2,3) l by blast
  then show ?thesis unfolding t tag_zh by (rule disjI2)
qed

lemma tag_needs_token:
  assumes "tag \<in> detect_languages U s"
  shows "(\<exists>ws w i. (tag, ws) \<in> set boundary_tokens \<and> w \<in> set ws \<and> token_at U w s i \<and>
            (tag = u ''eu'' \<longrightarrow> \<not> english_follows U s (i + length w))) \<or>
         (tag = u ''multi'' \<and> (\<exists>i j. multi_token_at U s i j)) \<or>
         (\<exists>ws w i. (tag, ws) \<in> set bare_tokens \<and> w \<in> set ws \<and> lit_at U w s i)"
  using detect_known_tag [OF assms]
proof (elim disjE)
  assume t: "tag = u ''en''"
  have ne: "u ''en'' \<noteq> u ''eu''"
    by (simp add: u_def)
  have "\<exists>w\<in>set [u ''USA'', u ''U'', u ''En'', u ''Eng'', u ''English'', u ''World'']. \<exists>i. token_at U w s i"
    using assms unfolding t tag_en .
  then obtain w i where "w \<in> set [u ''USA'', u ''U'', u ''En'', u ''Eng'', u ''English'', u ''World'']" "token_at U w s i" by blast
  with boundary_tokens_en ne show ?thesis unfolding t by blast
next
  assume t: "tag = u ''jp''"
  have ne: "u ''jp'' \<noteq> u ''eu''"
    by (simp add: u_def)
  have "(\<exists>w\<in>set [u ''JPN'', u ''Japan'', u ''J'']. \<exists>i. token_at U w s i) \<or>
        (\<exists>w\<in>set [[26085, 26412, 35486], [26085, 25991]]. \<exists>i. lit_at U w s i)"
    using assms unfolding t tag_jp .
  then show ?thesis
  proof
    assume "\<exists>w\<in>set [u ''JPN'', u ''Japan'', u ''J'']. \<exists>i. token_at U w s i"
    then obtain w i where "w \<in> set [u ''JPN'', u ''Japan'', u ''J'']" "token_at U w s i" by blast
    with boundary_tokens_jp ne show ?thesis unfolding t by blast
  next
    assume "\<exists>w\<in>set [[26085, 26412, 35486], [26085, 25991]]. \<exists>i. lit_at U w s i"
    then obtain w i where "w \<in> set [[26085, 26412, 35486], [26085, 25991]]" "lit_at U w s i" by blast
    with bare_tokens_jp show ?thesis unfolding t by blast
  qed
next
  assume t: "tag = u ''fr''"
  have ne: "u ''fr'' \<noteq> u ''eu''"
    by (simp add: u_def)
  have "\<exists>w\<in>set [u ''Fr'', u ''FRA'', u ''French'', u ''Francais'', u ''Fran'' @ [231] @ u ''ais'']. \<exists>i. token_at U w s i"
    using assms unfolding t tag_fr .
  then obtain w i where "w \<in> set [u ''Fr'', u ''FRA'', u ''French'', u ''Francais'', u ''Fran'' @ [231] @ u ''ais'']" "token_at U w s i" by blast
  with boundary_tokens_fr ne show ?thesis unfolding t by blast
next
  assume t: "tag = u ''de''"
  have ne: "u ''de'' \<noteq> u ''eu''"
    by (simp add: u_def)
  have "\<exists>w\<in>set [u ''De'', u ''Ger'', u ''German'', u ''Deutsch'']. \<exists>i. token_at U w s i"
    using assms unfolding t tag_de .
  then obtain w i where "w \<in> set [u ''De'', u ''Ger'', u ''German'', u ''Deutsch'']" "token_at U w s i" by blast
  with boundary_tokens_de ne show ?thesis unfolding t by blast
next
  assume t: "tag = u ''es''"
  have ne: "u ''es'' \<noteq> u ''eu''"
    by (simp add: u_def)
  have "\<exists>w\<in>set [u ''ES'', u ''Spa'', u ''Spanish'', u ''Espa'' @ [241] @ u ''ol'', u ''Espanol'', u ''Castellano'']. \<exists>i. token_at U w s i"
    using assms unfolding t tag_es .
  then obtain w i where "w \<in> set [u ''ES'', u ''Spa'', u ''Spanish'', u ''Espa'' @ [241] @ u ''ol'', u ''Espanol'', u ''Castellano'']" "token_at U w s i" by blast
  with boundary_tokens_es ne show ?thesis unfolding t by blast
next
  assume t: "tag = u ''it''"
  have ne: "u ''it'' \<noteq> u ''eu''"
    by (simp add: u_def)
  have "\<exists>w\<in>set [u ''ITA'', u ''It'', u ''Italian'', u ''Italiano'']. \<exists>i. token_at U w s i"
    using assms unfolding t tag_it .
  then obtain w i where "w \<in> set [u ''ITA'', u ''It'', u ''Italian'', u ''Italiano'']" "token_at U w s i" by blast
  with boundary_tokens_it ne show ?thesis unfolding t by blast
next
  assume t: "tag = u ''pt''"
  have ne: "u ''pt'' \<noteq> u ''eu''"
    by (simp add: u_def)
  have "\<exists>w\<in>set [u ''PT'', u ''Portugues'', u ''Portugu'' @ [234] @ u ''s'', u ''Brazil'', u ''BR'']. \<exists>i. token_at U w s i"
    using assms unfolding t tag_pt .
  then obtain w i where "w \<in> set [u ''PT'', u ''Portugues'', u ''Portugu'' @ [234] @ u ''s'', u ''Brazil'', u ''BR'']" "token_at U w s i" by blast
  with boundary_tokens_pt ne show ?thesis unfolding t by blast
next
  assume t: "tag = u ''ru''"
  have ne: "u ''ru'' \<noteq> u ''eu''"
    by (simp add: u_def)
  have "\<exists>w\<in>set [u ''RU'', u ''Rus'', u ''Russian'', [1056, 1091, 1089, 1089, 1082, 1080, 1081]]. \<exists>i. token_at U w s i"
    using assms unfolding t tag_ru .
  then obtain w i where "w \<in> set [u ''RU'', u ''Rus'', u ''Russian'', [1056, 1091, 1089, 1089, 1082, 1080, 1081]]" "token_at U w s i" by blast
  with boundary_tokens_ru ne show ?thesis unfolding t by blast
next
  assume t: "tag = u ''ko''"
  have ne: "u ''ko'' \<noteq> u ''eu''"
    by (simp add: u_def)
  have "(\<exists>w\<in>set [u ''KOR'', u ''Korea'', u ''Korean'']. \<exists>i. token_at U w s i) \<or>
        (\<exists>w\<in>set [[54620, 44397, 50612], [54620, 44544]]. \<exists>i. lit_at U w s i)"
    using assms unfolding t tag_ko .
  then show ?thesis
  proof
    assume "\<exists>w\<in>set [u ''KOR'', u ''Korea'', u ''Korean'']. \<exists>i. token_at U w s i"
    then obtain w i where "w \<in> set [u ''KOR'', u ''Korea'', u ''Korean'']" "token_at U w s i" by blast
    with boundary_tokens_ko ne show ?thesis unfolding t by blast
  next
    assume "\<exists>w\<in>set [[54620, 44397, 50612], [54620, 44544]]. \<exists>i. lit_at U w s i"
    then obtain w i where "w \<in> set [[54620, 44397, 50612], [54620, 44544]]" "lit_at U w s i" by blast
    with bare_tokens_ko show ?thesis unfolding t by blast
  qed
next
  assume t: "tag = u ''zh''"
  have ne: "u ''zh'' \<noteq> u ''eu''"
    by (simp add: u_def)
  have "(\<exists>w\<in>set [u ''CHN'', u ''China'', u ''Chinese'']. \<exists>i. token_at U w s i) \<or>
        (\<exists>w\<in>set [[20013, 25991, 29256], [20013, 25991], [27721, 21270]]. \<exists>i. lit_at U w s i)"
    using assms unfolding t tag_zh .
  then show ?thesis
  proof
    assume "\<exists>w\<in>set [u ''CHN'', u ''China'', u ''Chinese'']. \<exists>i. token_at U w s i"
    then obtain w i where "w \<in> set [u ''CHN'', u ''China'', u ''Chinese'']" "token_at U w s i" by blast
    with boundary_tokens_zh ne show ?thesis unfolding t by blast
  next
    assume "\<exists>w\<in>set [[20013, 25991, 29256], [20013, 25991], [27721, 21270]]. \<exists>i. lit_at U w s i"
    then obtain w i where "w \<in> set [[20013, 25991, 29256], [20013, 25991], [27721, 21270]]" "lit_at U w s i" by blast
    with bare_tokens_zh show ?thesis unfolding t by blast
  qed
next
  assume t: "tag = u ''multi''"
  have "\<exists>i j. multi_token_at U s i j"
    using assms unfolding t tag_multi .
  then show ?thesis using t by blast
next
  assume t: "tag = u ''eu''"
  have "\<exists>w\<in>set [u ''EUR'', u ''Europe'', u ''EU'']. \<exists>i. token_at U w s i \<and> \<not> english_follows U s (i + length w)"
    using assms unfolding t tag_eu .
  then obtain w i where "w \<in> set [u ''EUR'', u ''Europe'', u ''EU'']" "token_at U w s i"
    "\<not> english_follows U s (i + length w)" by blast
  with boundary_tokens_eu show ?thesis unfolding t by blast
qed

lemma token_somewhere:
  "(\<exists>i. token_at U w s i) \<longleftrightarrow> list_ex (token_at U w s) [0 ..< Suc (length s)]"
proof -
  have "token_at U w s i \<Longrightarrow> i < Suc (length s)" for i
    using token_at_le [of U w s i] by simp
  then show ?thesis
    unfolding list_ex_iff set_upt by (meson atLeastLessThan_iff zero_le)
qed

section \<open>The file system operations\<close>

declare unique_loop.simps [simp del]
declare os_makedirs.simps [simp del]

lemma files_mkdir: "os_mkdir fs p = Inr fs' \<Longrightarrow> files fs' = files fs \<and> dirs fs' = dirs fs @ [p]"
  by (auto simp: os_mkdir_def split: if_splits)

lemma mkdir_fresh: "os_mkdir fs p = Inr fs' \<Longrightarrow> \<not> os_path_exists fs p \<and> os_path_isdir fs (butlast p)"
  by (auto simp: os_mkdir_def split: if_splits)

lemma wf_mkdir:
  assumes "wf_fs fs" "os_mkdir fs p = Inr fs'"
  shows "wf_fs fs'"
proof -
  have f: "files fs' = files fs" "dirs fs' = dirs fs @ [p]"
    using files_mkdir [OF assms(2)] by simp_all
  have n: "\<not> os_path_exists fs p" "os_path_isdir fs (butlast p)"
    using mkdir_fresh [OF assms(2)] by simp_all
  have "p \<noteq> []" using n(1) by (auto simp: os_path_exists_def os_path_isdir_def)
  then show ?thesis
    using assms(1) n unfolding wf_fs_def f
    by (auto simp: os_path_exists_def os_path_isdir_def is_file_def list_all_iff f)
qed

lemma makedirs_cases:
  assumes "os_makedirs fs name = Inr fs'"
  obtains fs1 where
    "fs1 = fs \<or> (name \<noteq> [] \<and> \<not> os_path_exists fs (butlast name) \<and>
        os_makedirs fs (butlast name) = Inr fs1)"
    and "(fs' = fs1 \<and> os_path_isdir fs1 name) \<or> os_mkdir fs1 name = Inr fs'"
proof -
  let ?up = "name \<noteq> [] \<and> \<not> os_path_exists fs (butlast name)"
  let ?first = "if ?up then (case os_makedirs fs (butlast name) of
                    Inl e \<Rightarrow> if e = FileExistsError then Inr fs else Inl e
                  | Inr fs1 \<Rightarrow> Inr fs1) else Inr fs"
  have eq: "(case ?first of Inl e \<Rightarrow> Inl e
      | Inr fs1 \<Rightarrow> (case os_mkdir fs1 name of
             Inl e \<Rightarrow> if os_path_isdir fs1 name then Inr fs1 else Inl e
           | Inr fs2 \<Rightarrow> Inr fs2)) = Inr fs'"
    using assms by (subst (asm) os_makedirs.simps)
  then obtain fs1 where f: "?first = Inr fs1"
    and l: "(case os_mkdir fs1 name of
             Inl e \<Rightarrow> if os_path_isdir fs1 name then Inr fs1 else Inl e
           | Inr fs2 \<Rightarrow> Inr fs2) = Inr fs'"
    by (cases ?first) simp_all
  have 1: "fs1 = fs \<or> (?up \<and> os_makedirs fs (butlast name) = Inr fs1)"
    using f by (auto split: if_splits sum.splits)
  have 2: "(fs' = fs1 \<and> os_path_isdir fs1 name) \<or> os_mkdir fs1 name = Inr fs'"
    using l by (cases "os_mkdir fs1 name") (simp_all split: if_splits)
  show thesis using that [of fs1] 1 2 by blast
qed

lemma mkdir_or_there:
  assumes "(fs' = fs1 \<and> os_path_isdir fs1 name) \<or> os_mkdir fs1 name = Inr fs'"
  shows "files fs' = files fs1" and "set (dirs fs1) \<subseteq> set (dirs fs')"
    and "os_path_isdir fs' name" and "wf_fs fs1 \<Longrightarrow> wf_fs fs'"
    and "set (dirs fs') \<subseteq> insert name (set (dirs fs1))"
  using assms files_mkdir [of fs1 name fs'] wf_mkdir [of fs1 name fs']
  by (auto simp: os_path_isdir_def)

lemma makedirs_effect:
  "os_makedirs fs name = Inr fs' \<Longrightarrow>
     files fs' = files fs \<and> set (dirs fs) \<subseteq> set (dirs fs') \<and> os_path_isdir fs' name \<and>
     (wf_fs fs \<longrightarrow> wf_fs fs') \<and>
     (\<forall>p\<in>set (dirs fs'). p \<in> set (dirs fs) \<or> prefix p name)"
proof (induction name arbitrary: fs' rule: rev_induct)
  case Nil
  obtain fs1 where
    up: "fs1 = fs \<or> ([] \<noteq> ([]::path) \<and> \<not> os_path_exists fs (butlast []) \<and>
        os_makedirs fs (butlast []) = Inr fs1)"
    and last: "(fs' = fs1 \<and> os_path_isdir fs1 []) \<or> os_mkdir fs1 [] = Inr fs'"
    using makedirs_cases [OF Nil.prems] by blast
  have fs1: "fs1 = fs" using up by simp
  show ?case
    using mkdir_or_there [OF last] unfolding fs1 by auto
next
  case (snoc x xs)
  obtain fs1 where
    up: "fs1 = fs \<or> (xs @ [x] \<noteq> [] \<and> \<not> os_path_exists fs (butlast (xs @ [x])) \<and>
        os_makedirs fs (butlast (xs @ [x])) = Inr fs1)"
    and last: "(fs' = fs1 \<and> os_path_isdir fs1 (xs @ [x])) \<or> os_mkdir fs1 (xs @ [x]) = Inr fs'"
    using makedirs_cases [OF snoc.prems] by blast
  have a: "files fs1 = files fs \<and> set (dirs fs) \<subseteq> set (dirs fs1) \<and>
     (wf_fs fs \<longrightarrow> wf_fs fs1) \<and> (\<forall>p\<in>set (dirs fs1). p \<in> set (dirs fs) \<or> prefix p xs)"
    using up
  proof
    assume "fs1 = fs"
    then show ?thesis by simp
  next
    assume "xs @ [x] \<noteq> [] \<and> \<not> os_path_exists fs (butlast (xs @ [x])) \<and>
        os_makedirs fs (butlast (xs @ [x])) = Inr fs1"
    then have "os_makedirs fs xs = Inr fs1" by simp
    from snoc.IH [OF this] show ?thesis by simp
  qed
  have p: "prefix q xs \<Longrightarrow> prefix q (xs @ [x])" for q
    by simp
  note m = mkdir_or_there [OF last]
  have "files fs' = files fs" using a m(1) by simp
  moreover have "set (dirs fs) \<subseteq> set (dirs fs')" using a m(2) by blast
  moreover have "wf_fs fs \<longrightarrow> wf_fs fs'" using a m(4) by blast
  moreover have "\<forall>p\<in>set (dirs fs'). p \<in> set (dirs fs) \<or> prefix p (xs @ [x])"
  proof
    fix q assume "q \<in> set (dirs fs')"
    then have "q = xs @ [x] \<or> q \<in> set (dirs fs1)" using m(5) by blast
    then show "q \<in> set (dirs fs) \<or> prefix q (xs @ [x])"
      using a p by auto
  qed
  ultimately show ?case using m(3) by blast
qed


lemma wf_fs_iff:
  "wf_fs fs \<longleftrightarrow>
     distinct (map fst (files fs)) \<and> distinct (dirs fs) \<and>
     (\<forall>p. is_file fs p \<longrightarrow> p \<notin> set (dirs fs) \<and> p \<noteq> [] \<and> os_path_isdir fs (butlast p)) \<and>
     (\<forall>p\<in>set (dirs fs). p \<noteq> [] \<and> os_path_isdir fs (butlast p))"
  unfolding wf_fs_def is_file_def list_all_iff by auto

lemma wf_not_both: "wf_fs fs \<Longrightarrow> is_file fs p \<Longrightarrow> \<not> os_path_isdir fs p"
  unfolding wf_fs_iff os_path_isdir_def by blast

lemma is_file_map_of: "is_file fs p \<longleftrightarrow> map_of (files fs) p \<noteq> None"
  unfolding is_file_def by (simp add: map_of_eq_None_iff)

lemma makedirs_succeeds:
  assumes "\<forall>q. prefix q name \<longrightarrow> \<not> is_file fs q"
  shows "\<exists>fs'. os_makedirs fs name = Inr fs'"
  using assms
proof (induction name rule: rev_induct)
  case Nil
  show ?case
    by (subst os_makedirs.simps) (simp add: os_mkdir_def os_path_exists_def os_path_isdir_def)
next
  case (snoc x xs)
  have nf: "\<not> is_file fs (xs @ [x])" "\<not> is_file fs xs" using snoc.prems by simp_all
  have "\<forall>q. prefix q xs \<longrightarrow> \<not> is_file fs q"
    using snoc.prems by simp
  from snoc.IH [OF this] obtain fs0 where fs0: "os_makedirs fs xs = Inr fs0" by blast
  define fs1 where "fs1 = (if \<not> os_path_exists fs xs then fs0 else fs)"
  have first: "(if xs @ [x] \<noteq> [] \<and> \<not> os_path_exists fs (butlast (xs @ [x]))
            then (case os_makedirs fs (butlast (xs @ [x])) of
                    Inl e \<Rightarrow> if e = FileExistsError then Inr fs else Inl e
                  | Inr fs1 \<Rightarrow> Inr fs1)
            else Inr fs) = Inr fs1"
    by (simp add: fs1_def fs0)
  have f1: "files fs1 = files fs"
    using makedirs_effect [OF fs0] by (simp add: fs1_def)
  have d1: "os_path_isdir fs1 xs"
  proof (cases "os_path_exists fs xs")
    case True
    then have "os_path_isdir fs xs"
      using nf unfolding os_path_exists_def by blast
    then show ?thesis using True by (simp add: fs1_def)
  next
    case False
    then show ?thesis using makedirs_effect [OF fs0] by (simp add: fs1_def)
  qed
  have nf1: "\<not> is_file fs1 (xs @ [x])" "\<not> is_file fs1 xs"
    using nf f1 by (simp_all add: is_file_def)
  have "\<exists>fs'. (case os_mkdir fs1 (xs @ [x]) of
             Inl e \<Rightarrow> if os_path_isdir fs1 (xs @ [x]) then Inr fs1 else Inl e
           | Inr fs2 \<Rightarrow> Inr fs2) = Inr fs'"
    using d1 nf1 by (auto simp: os_mkdir_def os_path_exists_def)
  then show ?case
    by (subst os_makedirs.simps) (simp only: first sum.case)
qed

lemma unique_loop_form:
  "\<exists>k\<ge>c. unique_loop fs b e c = numbered b e k \<and> \<not> os_path_exists fs (numbered b e k) \<and>
          (\<forall>j. c \<le> j \<and> j < k \<longrightarrow> os_path_exists fs (numbered b e j))"
proof (induction fs b e c rule: unique_loop.induct)
  case (1 fs b e c)
  show ?case
  proof (cases "os_path_exists fs (numbered b e c)")
    case False
    then have "unique_loop fs b e c = numbered b e c"
      by (subst unique_loop.simps) simp
    then show ?thesis using False by (intro exI [of _ c]) auto
  next
    case True
    then have u: "unique_loop fs b e c = unique_loop fs b e (c + 1)"
      by (subst unique_loop.simps) simp
    from "1.IH" [OF True] obtain k where k: "c + 1 \<le> k"
      "unique_loop fs b e (c + 1) = numbered b e k" "\<not> os_path_exists fs (numbered b e k)"
      "\<forall>j. c + 1 \<le> j \<and> j < k \<longrightarrow> os_path_exists fs (numbered b e j)"
      by blast
    have "\<forall>j. c \<le> j \<and> j < k \<longrightarrow> os_path_exists fs (numbered b e j)"
    proof (intro allI impI)
      fix j assume "c \<le> j \<and> j < k"
      then have "j = c \<or> (c + 1 \<le> j \<and> j < k)" by arith
      then show "os_path_exists fs (numbered b e j)" using True k(4) by blast
    qed
    then show ?thesis using k u by (intro exI [of _ k]) auto
  qed
qed

lemma unique_destination_path_free:
  "\<not> os_path_exists fs (unique_destination_path fs d)"
proof (cases "os_path_exists fs d")
  case False
  then show ?thesis by (simp add: unique_destination_path_def)
next
  case True
  obtain b e where be: "path_splitext d = (b, e)" by (cases "path_splitext d")
  show ?thesis
    using unique_loop_form [of 1 fs b e] True by (auto simp: unique_destination_path_def be)
qed

lemma unique_destination_path_shape:
  "unique_destination_path fs d = d \<or>
   (\<exists>k\<ge>1. unique_destination_path fs d =
      numbered (fst (path_splitext d)) (snd (path_splitext d)) k)"
  using unique_loop_form [of 1 fs "fst (path_splitext d)" "snd (path_splitext d)"]
  by (auto simp: unique_destination_path_def case_prod_beta)

lemma numbered_last:
  "numbered (fst (path_splitext (up @ [name]))) (snd (path_splitext (up @ [name]))) k =
   up @ [fst (splitext name) @ u '' ('' @ str_of_nat k @ u '')'' @ snd (splitext name)]"
  by (simp add: path_splitext_def numbered_def)

lemma butlast_numbered: "butlast (numbered (fst (path_splitext d)) (snd (path_splitext d)) k) = butlast d"
  by (cases d rule: rev_cases) (simp_all add: path_splitext_def numbered_def)

lemma butlast_unique_destination_path:
  "butlast (unique_destination_path fs d) = butlast d"
proof (cases "os_path_exists fs d")
  case False
  then show ?thesis by (simp add: unique_destination_path_def)
next
  case True
  obtain k where "unique_loop fs (fst (path_splitext d)) (snd (path_splitext d)) 1 =
      numbered (fst (path_splitext d)) (snd (path_splitext d)) k"
    using unique_loop_form [of 1 fs] by blast
  then show ?thesis
    using True butlast_numbered [of d k]
    by (simp add: unique_destination_path_def case_prod_beta)
qed

lemma shutil_move_effect:
  assumes "shutil_move fs src dst = Inr fs'" and "\<not> os_path_exists fs dst"
  shows "\<exists>c. map_of (files fs) src = Some c \<and>
           files fs' = filter (\<lambda>(p, _). p \<noteq> src) (files fs) @ [(dst, c)] \<and>
           dirs fs' = dirs fs \<and> os_path_isdir fs (butlast dst) \<and> \<not> is_file fs (butlast dst)"
proof -
  have nd: "\<not> os_path_isdir fs dst" and nf: "\<not> is_file fs dst"
    using assms(2) by (simp_all add: os_path_exists_def)
  obtain c where c: "map_of (files fs) src = Some c"
    using assms(1) nd by (cases "map_of (files fs) src") (simp_all add: shutil_move_def)
  have ok: "os_path_isdir fs (butlast dst)" "\<not> is_file fs (butlast dst)"
    and fs': "fs' = fs\<lparr>files := filter (\<lambda>(p, _). p \<noteq> src \<and> p \<noteq> dst) (files fs) @ [(dst, c)]\<rparr>"
    using assms(1) nd c by (auto simp: shutil_move_def split: if_splits)
  have "filter (\<lambda>(p, _). p \<noteq> src \<and> p \<noteq> dst) (files fs) = filter (\<lambda>(p, _). p \<noteq> src) (files fs)"
    using nf unfolding is_file_def by (intro filter_cong) force+
  then show ?thesis using c ok fs' by simp
qed

lemma shutil_move_succeeds:
  assumes "map_of (files fs) src = Some c" and "\<not> os_path_exists fs dst"
    and "os_path_isdir fs (butlast dst)" and "\<not> is_file fs (butlast dst)"
  shows "shutil_move fs src dst =
           Inr (fs\<lparr>files := filter (\<lambda>(p, _). p \<noteq> src) (files fs) @ [(dst, c)]\<rparr>)"
proof -
  have nd: "\<not> os_path_isdir fs dst" and nf: "\<not> is_file fs dst"
    using assms(2) by (simp_all add: os_path_exists_def)
  have "filter (\<lambda>(p, _). p \<noteq> src \<and> p \<noteq> dst) (files fs) = filter (\<lambda>(p, _). p \<noteq> src) (files fs)"
    using nf unfolding is_file_def by (intro filter_cong) force+
  then show ?thesis
    using assms nd by (simp add: shutil_move_def)
qed

lemma wf_moved:
  assumes "wf_fs fs" and "map_of (files fs) src = Some c" and "\<not> os_path_exists fs dst"
    and "os_path_isdir fs (butlast dst)"
  shows "wf_fs (fs\<lparr>files := filter (\<lambda>(p, _). p \<noteq> src) (files fs) @ [(dst, c)]\<rparr>)"
proof -
  have m: "map fst (filter (\<lambda>(p, _). p \<noteq> src) (files fs)) = filter (\<lambda>p. p \<noteq> src) (map fst (files fs))"
    by (induction "files fs") (auto simp: filter_map comp_def case_prod_beta)
  have "dst \<noteq> []" "dst \<notin> set (dirs fs)" "dst \<notin> set (map fst (files fs))"
    using assms(3) by (auto simp: os_path_exists_def os_path_isdir_def is_file_def)
  then show ?thesis
    using assms(1,4) unfolding wf_fs_def
    by (auto simp: m list_all_iff os_path_isdir_def)
qed

lemma ensure_parent_dir_effect:
  assumes "ensure_parent_dir fs p = Inr fs1"
  shows "files fs1 = files fs" and "set (dirs fs) \<subseteq> set (dirs fs1)"
    and "os_path_isdir fs1 (butlast p)" and "wf_fs fs \<Longrightarrow> wf_fs fs1"
    and "\<forall>q\<in>set (dirs fs1). q \<in> set (dirs fs) \<or> prefix q (butlast p)"
    and "os_path_isdir fs (butlast p) \<Longrightarrow> fs1 = fs"
proof -
  have "fs1 = fs \<and> os_path_isdir fs (butlast p) \<or>
        \<not> os_path_isdir fs (butlast p) \<and> os_makedirs fs (butlast p) = Inr fs1"
    using assms by (auto simp: ensure_parent_dir_def Let_def split: if_splits)
  then show "files fs1 = files fs" and "set (dirs fs) \<subseteq> set (dirs fs1)"
    and "os_path_isdir fs1 (butlast p)" and "wf_fs fs \<Longrightarrow> wf_fs fs1"
    and "\<forall>q\<in>set (dirs fs1). q \<in> set (dirs fs) \<or> prefix q (butlast p)"
    and "os_path_isdir fs (butlast p) \<Longrightarrow> fs1 = fs"
    using makedirs_effect [of fs "butlast p" fs1] by auto
qed

lemma relocate_cases:
  assumes "relocate fs src dest = Inr fs'"
  obtains fs1 where "ensure_parent_dir fs dest = Inr fs1"
    and "shutil_move fs1 src (unique_destination_path fs1 dest) = Inr fs'"
  using assms by (auto simp: relocate_def split: sum.splits)

lemma exists_mono:
  assumes "files fs1 = files fs" and "set (dirs fs) \<subseteq> set (dirs fs1)"
  shows "os_path_exists fs p \<Longrightarrow> os_path_exists fs1 p"
  using assms by (auto simp: os_path_exists_def os_path_isdir_def is_file_def)

lemma relocate_effect:
  assumes "wf_fs fs" and "relocate fs src dest = Inr fs'"
  shows "\<exists>c final. map_of (files fs) src = Some c \<and> \<not> os_path_exists fs final \<and>
           butlast final = butlast dest \<and>
           (final = dest \<or>
            (\<exists>k\<ge>1. final = numbered (fst (path_splitext dest)) (snd (path_splitext dest)) k)) \<and>
           (os_path_isdir fs (butlast dest) \<and> \<not> os_path_exists fs dest \<longrightarrow> final = dest) \<and>
           files fs' = filter (\<lambda>(p, _). p \<noteq> src) (files fs) @ [(final, c)] \<and>
           set (dirs fs) \<subseteq> set (dirs fs') \<and>
           (os_path_isdir fs (butlast dest) \<longrightarrow> dirs fs' = dirs fs) \<and>
           (\<forall>q\<in>set (dirs fs'). q \<in> set (dirs fs) \<or> prefix q (butlast dest)) \<and>
           wf_fs fs'"
proof -
  obtain fs1 where e: "ensure_parent_dir fs dest = Inr fs1"
    and m: "shutil_move fs1 src (unique_destination_path fs1 dest) = Inr fs'"
    using relocate_cases [OF assms(2)] by blast
  let ?final = "unique_destination_path fs1 dest"
  note e1 = ensure_parent_dir_effect [OF e]
  have free1: "\<not> os_path_exists fs1 ?final"
    by (rule unique_destination_path_free)
  then have free: "\<not> os_path_exists fs ?final"
    using exists_mono [OF e1(1,2)] by blast
  obtain c where c: "map_of (files fs1) src = Some c"
    and f: "files fs' = filter (\<lambda>(p, _). p \<noteq> src) (files fs1) @ [(?final, c)]"
    and d: "dirs fs' = dirs fs1" and pd: "os_path_isdir fs1 (butlast ?final)"
    using shutil_move_effect [OF m free1] by blast
  have fs': "fs' = fs1\<lparr>files := filter (\<lambda>(p, _). p \<noteq> src) (files fs1) @ [(?final, c)]\<rparr>"
    using f d by simp
  have w: "wf_fs fs'"
    unfolding fs' using wf_moved [OF e1(4) [OF assms(1)] c free1 pd] .
  have same: "os_path_isdir fs (butlast dest) \<and> \<not> os_path_exists fs dest \<longrightarrow> ?final = dest"
    using e1(6) by (auto simp: unique_destination_path_def)
  have shape: "?final = dest \<or>
      (\<exists>k\<ge>1. ?final = numbered (fst (path_splitext dest)) (snd (path_splitext dest)) k)"
    by (rule unique_destination_path_shape)
  have c0: "map_of (files fs) src = Some c" and f0:
    "files fs' = filter (\<lambda>(p, _). p \<noteq> src) (files fs) @ [(?final, c)]"
    using c f e1(1) by simp_all
  have d1: "set (dirs fs) \<subseteq> set (dirs fs')" using d e1(2) by simp
  have d2: "os_path_isdir fs (butlast dest) \<longrightarrow> dirs fs' = dirs fs" using d e1(6) by auto
  have d3: "\<forall>q\<in>set (dirs fs'). q \<in> set (dirs fs) \<or> prefix q (butlast dest)"
    using d e1(5) by simp
  show ?thesis
    using c0 free butlast_unique_destination_path [of fs1 dest] shape same f0 d1 d2 d3 w
    by (intro exI [of _ c] exI [of _ ?final] conjI)
qed

lemma set_files_moved:
  assumes "distinct (map fst xs)" and "map_of xs src = Some c" and "final \<notin> set (map fst xs)"
  shows "set (filter (\<lambda>(p, _). p \<noteq> src) xs @ [(final, c)]) = set xs - {(src, c)} \<union> {(final, c)}"
proof -
  have "(p, x) \<in> set xs \<Longrightarrow> p = src \<Longrightarrow> x = c" for p x
    using assms(1,2) by (metis map_of_is_SomeI option.inject)
  then show ?thesis by auto
qed

lemma map_of_moved:
  assumes "final \<notin> set (map fst xs)"
  shows "map_of (filter (\<lambda>(p, _). p \<noteq> src) xs @ [(final, c)]) p =
         (if p = final then Some c else if p = src then None else map_of xs p)"
proof -
  have a: "map_of (filter (\<lambda>(p, _). p \<noteq> src) xs) q = (if q = src then None else map_of xs q)" for q
    by (induction xs) auto
  have n: "map_of xs final = None"
    using assms by (simp add: map_of_eq_None_iff)
  show ?thesis
  proof (cases "p = final")
    case True
    then show ?thesis using n by (simp add: map_add_def a)
  next
    case False
    then show ?thesis by (simp add: map_add_def a split: option.splits)
  qed
qed

section \<open>Walks\<close>

lemma os_walk_rule:
  assumes "wf R" and "I stack s"
    and skip: "\<And>here rest s. I (here # rest) s \<Longrightarrow> os_scandir (fst s) here = None \<Longrightarrow>
           I rest s \<and> ((rest, s), (here # rest, s)) \<in> R"
    and step: "\<And>here rest s ds fns s'. I (here # rest) s \<Longrightarrow>
           os_scandir (fst s) here = Some (ds, fns) \<Longrightarrow> body here ds fns s = Inr s' \<Longrightarrow>
           I (map (\<lambda>d. here @ [d]) ds @ rest) s' \<and>
           ((map (\<lambda>d. here @ [d]) ds @ rest, s'), (here # rest, s)) \<in> R"
    and err: "\<And>here rest s ds fns e. I (here # rest) s \<Longrightarrow>
           os_scandir (fst s) here = Some (ds, fns) \<Longrightarrow> body here ds fns s = Inl e \<Longrightarrow>
           Q (Inl e)"
    and final: "\<And>s. I [] s \<Longrightarrow> Q (Inr s)"
  shows "\<exists>r. os_walk body stack s = Some r \<and> Q r"
proof -
  have "I (fst x) (snd x) \<longrightarrow> (\<exists>r. os_walk body (fst x) (snd x) = Some r \<and> Q r)" for x
  proof (induction x rule: wf_induct_rule [OF assms(1)])
    case (1 x)
    obtain stack s where x: "x = (stack, s)" by (cases x)
    show ?case
    proof
      assume i: "I (fst x) (snd x)"
      show "\<exists>r. os_walk body (fst x) (snd x) = Some r \<and> Q r"
      proof (cases stack)
        case Nil
        then show ?thesis using i x final by (subst os_walk.simps) simp
      next
        case (Cons here rest)
        show ?thesis
        proof (cases "os_scandir (fst s) here")
          case None
          have "I rest s \<and> ((rest, s), (here # rest, s)) \<in> R"
            using skip [of here rest s] i x Cons None by simp
          then have "\<exists>r. os_walk body rest s = Some r \<and> Q r"
            using 1 [of "(rest, s)"] x Cons by simp
          then show ?thesis
            using x Cons None by (subst os_walk.simps) simp
        next
          case (Some l)
          obtain ds fns where l: "l = (ds, fns)" by (cases l)
          show ?thesis
          proof (cases "body here ds fns s")
            case (Inl e)
            then have "Q (Inl e)" using err [of here rest s ds fns e] i x Cons Some l by simp
            then show ?thesis
              using x Cons Some l Inl by (subst os_walk.simps) simp
          next
            case (Inr s')
            let ?st = "map (\<lambda>d. here @ [d]) ds @ rest"
            have "I ?st s' \<and> ((?st, s'), (here # rest, s)) \<in> R"
              using step [of here rest s ds fns s'] i x Cons Some l Inr by simp
            then have "\<exists>r. os_walk body ?st s' = Some r \<and> Q r"
              using 1 [of "(?st, s')"] x Cons by simp
            then show ?thesis
              using x Cons Some l Inr by (subst os_walk.simps) simp
          qed
        qed
      qed
    qed
  qed
  from this [of "(stack, s)"] assms(2) show ?thesis by simp
qed

text \<open>The variant: each directory on the stack weighs its distance from a depth that no
  directory exceeds.\<close>

definition walk_order :: "nat \<Rightarrow> ((path list \<times> 's) \<times> (path list \<times> 's)) set" where
  "walk_order D = inv_image (mult {(a :: nat, b). a < b})
     (\<lambda>(stack, s). mset (map (\<lambda>p. D - length p) stack))"

lemma wf_walk_order: "wf (walk_order D)"
  unfolding walk_order_def by (intro wf_inv_image wf_mult) (rule wf_less)

lemma walk_order_pop: "((rest, s'), (here # rest, s)) \<in> walk_order D"
proof -
  have "(mset (map (\<lambda>p. D - length p) rest) + {#},
         mset (map (\<lambda>p. D - length p) rest) + {#D - length here#}) \<in> mult {(a, b). a < b}"
    by (rule one_step_implies_mult) simp_all
  then show ?thesis by (simp add: walk_order_def)
qed

lemma walk_order_push:
  assumes "length here < D"
  shows "((map (\<lambda>d. here @ [d]) ds @ rest, s'), (here # rest, s)) \<in> walk_order D"
proof -
  have "(mset (map (\<lambda>p. D - length p) rest) + mset (map (\<lambda>p. D - length p) (map (\<lambda>d. here @ [d]) ds)),
         mset (map (\<lambda>p. D - length p) rest) + {#D - length here#}) \<in> mult {(a, b). a < b}"
    using assms by (intro one_step_implies_mult) auto
  then show ?thesis by (simp add: walk_order_def add.commute multiset.map_comp)
qed

lemma scandir_dirs:
  assumes "os_scandir fs here = Some (ds, fns)"
  shows "\<forall>d\<in>set ds. here @ [d] \<in> set (dirs fs)"
    and "\<forall>f\<in>set fns. here @ [f] \<in> set (map fst (files fs))"
    and "os_path_isdir fs here"
    and "\<forall>p\<in>set (dirs fs). p \<noteq> [] \<and> butlast p = here \<longrightarrow> last p \<in> set ds"
    and "\<forall>p\<in>set (map fst (files fs)). p \<noteq> [] \<and> butlast p = here \<longrightarrow> last p \<in> set fns"
proof -
  have ds: "ds = map last (filter (\<lambda>p. p \<noteq> [] \<and> butlast p = here) (dirs fs))"
    and fns: "fns = map last (filter (\<lambda>p. p \<noteq> [] \<and> butlast p = here) (map fst (files fs)))"
    and "os_path_isdir fs here"
    using assms by (auto simp: os_scandir_def split: if_splits)
  then show "os_path_isdir fs here" by simp
  show "\<forall>d\<in>set ds. here @ [d] \<in> set (dirs fs)"
    unfolding ds by (auto dest: append_butlast_last_id)
  show "\<forall>f\<in>set fns. here @ [f] \<in> set (map fst (files fs))"
  proof
    fix f assume "f \<in> set fns"
    then obtain p where "p \<in> set (map fst (files fs))" "p \<noteq> []" "butlast p = here" "f = last p"
      unfolding fns by auto
    then show "here @ [f] \<in> set (map fst (files fs))"
      using append_butlast_last_id [of p] by simp
  qed
  show "\<forall>p\<in>set (dirs fs). p \<noteq> [] \<and> butlast p = here \<longrightarrow> last p \<in> set ds"
    unfolding ds by auto
  show "\<forall>p\<in>set (map fst (files fs)). p \<noteq> [] \<and> butlast p = here \<longrightarrow> last p \<in> set fns"
    unfolding fns by (intro ballI impI) (simp add: image_iff, blast)
qed

section \<open>The decision rules\<close>

text \<open>
  C3. Sort decision rule: with a non-empty tag set the file is kept exactly when some
  detected tag is in the keep set (otherwise it is moved); with an empty tag set the
  file is kept whatever the keep set is, the empty keep set included.
\<close>

theorem should_keep_rule:
  "(tags \<noteq> {} \<longrightarrow> (should_keep tags keep_set \<longleftrightarrow> tags \<inter> keep_set \<noteq> {})) \<and>
   (tags = {} \<longrightarrow> should_keep tags keep_set) \<and>
   should_keep {} {}"
  by (auto simp: should_keep_def)

theorem should_keep_rule_witness:
  "\<not> should_keep {u ''jp''} {u ''en''} \<and> should_keep {u ''jp'', u ''en''} {u ''en''} \<and>
   should_keep {} {u ''fr''}"
  using should_keep_rule [of "{u ''jp''}" "{u ''en''}"]
    should_keep_rule [of "{u ''jp'', u ''en''}" "{u ''en''}"]
    should_keep_rule [of "{}" "{u ''fr''}"]
  by (simp add: u_def)

text \<open>
  C4. Remerge decision rule: the empty keep set restores every file; otherwise a file
  with tags is restored exactly when one of its tags is in the keep set, and a file
  without tags exactly when \<open>en\<close> is in the keep set. So a file without tags is restored
  for the keep set \<open>{en}\<close> and skipped for \<open>{fr}\<close>.
\<close>

theorem allow_back_rule:
  "(keep_set = {} \<longrightarrow> allow_back tags keep_set) \<and>
   (keep_set \<noteq> {} \<and> tags \<noteq> {} \<longrightarrow> (allow_back tags keep_set \<longleftrightarrow> tags \<inter> keep_set \<noteq> {})) \<and>
   (keep_set \<noteq> {} \<and> tags = {} \<longrightarrow> (allow_back tags keep_set \<longleftrightarrow> u ''en'' \<in> keep_set)) \<and>
   allow_back {} {u ''en''} \<and> \<not> allow_back {} {u ''fr''}"
  by (auto simp: allow_back_def u_def)

theorem allow_back_rule_witness:
  "allow_back {u ''jp''} {} \<and> \<not> allow_back {u ''jp''} {u ''en''} \<and>
   allow_back {u ''jp''} {u ''jp'', u ''en''} \<and> allow_back {} {u ''en'', u ''de''}"
  using allow_back_rule [of "{}" "{u ''jp''}"]
    allow_back_rule [of "{u ''en''}" "{u ''jp''}"]
    allow_back_rule [of "{u ''jp'', u ''en''}" "{u ''jp''}"]
    allow_back_rule [of "{u ''en'', u ''de''}" "{}"]
  by (simp add: u_def)

section \<open>Language detection\<close>

text \<open>
  C5 asks that every token between word boundaries puts its tag into the result and that a
  token inside a longer word never does. Both halves fail.

  In \<open>Game (Europe) (En)\<close> the word \<open>Europe\<close> stands between word boundaries at position 6
  and \<open>eu\<close> is not detected, because the lookahead of the \<open>eu\<close> pattern sees \<open>En\<close>.

  In the name of the four ideographs 26085, 20013, 25991, 21270 the Chinese literal
  20013, 25991 stands at position 1 with a word character on either side, so neither of
  its ends is a word boundary, and \<open>zh\<close> is detected: the pattern has no \<open>\b\<close>.
\<close>

theorem detect_tokens_counterexample:
  "(u ''eu'', [u ''EUR'', u ''Europe'', u ''EU'']) \<in> set boundary_tokens \<and>
   token_at ascii_only (u ''Europe'') (u ''Game (Europe) (En)'') 6 \<and>
   u ''eu'' \<notin> detect_languages ascii_only (u ''Game (Europe) (En)'') \<and>
   (u ''zh'', [[20013, 25991, 29256], [20013, 25991], [27721, 21270]]) \<in> set bare_tokens \<and>
   lit_at ideographs [20013, 25991] [26085, 20013, 25991, 21270] 1 \<and>
   word_at ideographs [26085, 20013, 25991, 21270] 0 \<and>
   word_at ideographs [26085, 20013, 25991, 21270] 3 \<and>
   \<not> at_boundary ideographs [26085, 20013, 25991, 21270] 1 \<and>
   \<not> at_boundary ideographs [26085, 20013, 25991, 21270] 3 \<and>
   u ''zh'' \<in> detect_languages ideographs [26085, 20013, 25991, 21270]"
proof -
  have a: "token_at ascii_only (u ''Europe'') (u ''Game (Europe) (En)'') 6"
    by code_simp
  have "\<not> list_ex (\<lambda>p. re_search ascii_only p (u ''Game (Europe) (En)'')) eu_patterns"
    by code_simp
  then have b: "u ''eu'' \<notin> detect_languages ascii_only (u ''Game (Europe) (En)'')"
    using detect_lookup [of "u ''eu''" eu_patterns ascii_only "u ''Game (Europe) (En)''"]
    by (simp add: LANGUAGE_PATTERNS_def list_ex_iff)
  have c: "lit_at ideographs [20013, 25991] [26085, 20013, 25991, 21270] 1"
    by (simp add: lit_at_def ci_eq_def ideographs_def ascii_only_def)
  have d: "word_at ideographs [26085, 20013, 25991, 21270] 0"
    "word_at ideographs [26085, 20013, 25991, 21270] 3"
    "\<not> at_boundary ideographs [26085, 20013, 25991, 21270] 1"
    "\<not> at_boundary ideographs [26085, 20013, 25991, 21270] 3"
    by (simp_all add: at_boundary_def word_at_def is_word_def ideographs_def ascii_only_def)
  have "[20013, 25991] \<in> set [[20013, 25991, 29256], [20013, 25991], [27721, 21270::nat]]"
    by simp
  then have e: "u ''zh'' \<in> detect_languages ideographs [26085, 20013, 25991, 21270]"
    unfolding tag_zh using c by blast
  show ?thesis
    by (intro conjI boundary_tokens_eu a b bare_tokens_zh c d e)
qed

text \<open>
  C5, as the code has it. For every name:
  \<^item> a word of the table between word boundaries puts its tag into the result; for the
    words of \<open>eu\<close> this needs that no \<open>En\<close>, \<open>Eng\<close> or \<open>English\<close> between word boundaries
    follows the word before the next line feed;
  \<^item> a multi-language marker between word boundaries gives \<open>multi\<close>;
  \<^item> the Japanese, Korean and Chinese literals give their tag wherever they stand, inside
    a longer word too, since their patterns have no \<open>\b\<close>;
  \<^item> and a tag is in the result only for one of these reasons: a word of the table that
    stands only inside longer words does not give its tag, and a word of \<open>eu\<close> that is
    followed by \<open>En\<close>, \<open>Eng\<close> or \<open>English\<close> does not give \<open>eu\<close>.
\<close>

theorem detect_tokens:
  "((tag, ws) \<in> set boundary_tokens \<and> w \<in> set ws \<and> token_at U w stem i \<and>
      (tag = u ''eu'' \<longrightarrow> \<not> english_follows U stem (i + length w))
      \<longrightarrow> tag \<in> detect_languages U stem) \<and>
   (multi_token_at U stem i j \<longrightarrow> u ''multi'' \<in> detect_languages U stem) \<and>
   ((tag, ws) \<in> set bare_tokens \<and> w \<in> set ws \<and> lit_at U w stem i
      \<longrightarrow> tag \<in> detect_languages U stem) \<and>
   (tag \<in> detect_languages U stem \<longrightarrow>
      (\<exists>ws w i. (tag, ws) \<in> set boundary_tokens \<and> w \<in> set ws \<and> token_at U w stem i \<and>
           (tag = u ''eu'' \<longrightarrow> \<not> english_follows U stem (i + length w))) \<or>
      (tag = u ''multi'' \<and> (\<exists>i j. multi_token_at U stem i j)) \<or>
      (\<exists>ws w i. (tag, ws) \<in> set bare_tokens \<and> w \<in> set ws \<and> lit_at U w stem i))"
proof (intro conjI impI)
  assume "(tag, ws) \<in> set boundary_tokens \<and> w \<in> set ws \<and> token_at U w stem i \<and>
      (tag = u ''eu'' \<longrightarrow> \<not> english_follows U stem (i + length w))"
  then show "tag \<in> detect_languages U stem"
    using token_gives_tag [of tag ws w U stem i] by blast
next
  assume "multi_token_at U stem i j"
  then show "u ''multi'' \<in> detect_languages U stem"
    unfolding tag_multi by blast
next
  assume "(tag, ws) \<in> set bare_tokens \<and> w \<in> set ws \<and> lit_at U w stem i"
  then show "tag \<in> detect_languages U stem"
    using bare_gives_tag [of tag ws w U stem i] by blast
next
  assume "tag \<in> detect_languages U stem"
  then show "(\<exists>ws w i. (tag, ws) \<in> set boundary_tokens \<and> w \<in> set ws \<and> token_at U w stem i \<and>
           (tag = u ''eu'' \<longrightarrow> \<not> english_follows U stem (i + length w))) \<or>
      (tag = u ''multi'' \<and> (\<exists>i j. multi_token_at U stem i j)) \<or>
      (\<exists>ws w i. (tag, ws) \<in> set bare_tokens \<and> w \<in> set ws \<and> lit_at U w stem i)"
    by (rule tag_needs_token)
qed

text \<open>
  The theorem at work. \<open>Japan\<close> and \<open>Multi5\<close> between word boundaries give \<open>jp\<close> and
  \<open>multi\<close>. The Chinese literal inside the word of four ideographs gives \<open>zh\<close>. In
  \<open>Sousa\<close> the letters \<open>USA\<close> stand at position 2 inside the word, no word of \<open>en\<close>
  stands between word boundaries, and \<open>en\<close> is not detected. In \<open>Game (Europe) (En)\<close>
  every word of \<open>eu\<close> is followed by \<open>En\<close>, and \<open>eu\<close> is not detected.
\<close>

theorem detect_tokens_witness:
  "token_at ascii_only (u ''Japan'') (u ''Game (Japan)'') 6 \<and>
   u ''jp'' \<in> detect_languages ascii_only (u ''Game (Japan)'') \<and>
   multi_token_at ascii_only (u ''Game (Multi5)'') 6 12 \<and>
   u ''multi'' \<in> detect_languages ascii_only (u ''Game (Multi5)'') \<and>
   lit_at ideographs [20013, 25991] [26085, 20013, 25991, 21270] 1 \<and>
   \<not> at_boundary ideographs [26085, 20013, 25991, 21270] 1 \<and>
   u ''zh'' \<in> detect_languages ideographs [26085, 20013, 25991, 21270] \<and>
   lit_at ascii_only (u ''USA'') (u ''Sousa'') 2 \<and>
   u ''en'' \<notin> detect_languages ascii_only (u ''Sousa'') \<and>
   token_at ascii_only (u ''Europe'') (u ''Game (Europe) (En)'') 6 \<and>
   u ''eu'' \<notin> detect_languages ascii_only (u ''Game (Europe) (En)'')"
proof -
  have a: "token_at ascii_only (u ''Japan'') (u ''Game (Japan)'') 6"
    by code_simp
  have b: "multi_token_at ascii_only (u ''Game (Multi5)'') 6 12"
    by code_simp
  have c: "lit_at ideographs [20013, 25991] [26085, 20013, 25991, 21270] 1"
    by (simp add: lit_at_def ci_eq_def ideographs_def ascii_only_def)
  have c': "\<not> at_boundary ideographs [26085, 20013, 25991, 21270] 1"
    by (simp add: at_boundary_def word_at_def is_word_def ideographs_def ascii_only_def)
  have d: "u ''jp'' = u ''eu'' \<longrightarrow>
      \<not> english_follows ascii_only (u ''Game (Japan)'') (6 + length (u ''Japan''))"
    by (simp add: u_def)
  have e: "u ''Japan'' \<in> set [u ''JPN'', u ''Japan'', u ''J'']"
    and f: "[20013, 25991] \<in> set [[20013, 25991, 29256], [20013, 25991], [27721, 21270::nat]]"
    by simp_all
  note t1 = detect_tokens [of "u ''jp''" "[u ''JPN'', u ''Japan'', u ''J'']" "u ''Japan''"
        ascii_only "u ''Game (Japan)''" 6 0]
  note t2 = detect_tokens [of "u ''jp''" "[]" "[]" ascii_only "u ''Game (Multi5)''" 6 12]
  note t3 = detect_tokens [of "u ''zh''" "[[20013, 25991, 29256], [20013, 25991], [27721, 21270]]"
        "[20013, 25991]" ideographs "[26085, 20013, 25991, 21270]" 1 0]
  note t4 = detect_tokens [of "u ''en''" "[]" "[]" ascii_only "u ''Sousa''" 0 0]
  note t5 = detect_tokens [of "u ''eu''" "[]" "[]" ascii_only "u ''Game (Europe) (En)''" 0 0]
  have jp: "u ''jp'' \<in> detect_languages ascii_only (u ''Game (Japan)'')"
    by (rule mp [OF t1 [THEN conjunct1]]) (intro conjI boundary_tokens_jp e a d)
  have multi: "u ''multi'' \<in> detect_languages ascii_only (u ''Game (Multi5)'')"
    by (rule mp [OF t2 [THEN conjunct2, THEN conjunct1] b])
  have zh: "u ''zh'' \<in> detect_languages ideographs [26085, 20013, 25991, 21270]"
    by (rule mp [OF t3 [THEN conjunct2, THEN conjunct2, THEN conjunct1]])
      (intro conjI bare_tokens_zh f c)
  have g: "lit_at ascii_only (u ''USA'') (u ''Sousa'') 2"
    by code_simp
  have en: "u ''en'' \<notin> detect_languages ascii_only (u ''Sousa'')"
  proof
    assume "u ''en'' \<in> detect_languages ascii_only (u ''Sousa'')"
    from mp [OF t4 [THEN conjunct2, THEN conjunct2, THEN conjunct2] this]
    show False
    proof (elim disjE exE conjE)
      fix ws w i
      assume m: "(u ''en'', ws) \<in> set boundary_tokens" and w: "w \<in> set ws"
        and t: "token_at ascii_only w (u ''Sousa'') i"
      have n: "u ''en'' \<noteq> u t" if "t \<in> set [''jp'', ''fr'', ''de'', ''es'', ''it'', ''pt'', ''ru'', ''ko'', ''zh'', ''eu'']" for t
        using that by (auto simp: u_def)
      have "ws = [u ''USA'', u ''U'', u ''En'', u ''Eng'', u ''English'', u ''World'']"
        using boundary_tokens_cases [OF m] n by simp
      then have "list_ex (\<lambda>w. list_ex (token_at ascii_only w (u ''Sousa'')) [0 ..< Suc (length (u ''Sousa''))])
          [u ''USA'', u ''U'', u ''En'', u ''Eng'', u ''English'', u ''World'']"
        using w t token_somewhere [of ascii_only w "u ''Sousa''"] unfolding list_ex_iff by blast
      moreover have "\<not> list_ex (\<lambda>w. list_ex (token_at ascii_only w (u ''Sousa'')) [0 ..< Suc (length (u ''Sousa''))])
          [u ''USA'', u ''U'', u ''En'', u ''Eng'', u ''English'', u ''World'']"
        by code_simp
      ultimately show False by blast
    next
      assume "u ''en'' = u ''multi''"
      then show False by (simp add: u_def)
    next
      fix ws w i
      assume "(u ''en'', ws) \<in> set bare_tokens"
      then show False
        using bare_tokens_cases [of "u ''en''" ws] by (simp add: u_def)
    qed
  qed
  have h: "token_at ascii_only (u ''Europe'') (u ''Game (Europe) (En)'') 6"
    by code_simp
  have eu: "u ''eu'' \<notin> detect_languages ascii_only (u ''Game (Europe) (En)'')"
  proof
    assume "u ''eu'' \<in> detect_languages ascii_only (u ''Game (Europe) (En)'')"
    from mp [OF t5 [THEN conjunct2, THEN conjunct2, THEN conjunct2] this]
    show False
    proof (elim disjE exE conjE)
      fix ws w i
      assume m: "(u ''eu'', ws) \<in> set boundary_tokens" and w: "w \<in> set ws"
        and t: "token_at ascii_only w (u ''Game (Europe) (En)'') i"
        and l: "u ''eu'' = u ''eu'' \<longrightarrow>
            \<not> english_follows ascii_only (u ''Game (Europe) (En)'') (i + length w)"
      have n: "u ''eu'' \<noteq> u t" if "t \<in> set [''en'', ''jp'', ''fr'', ''de'', ''es'', ''it'', ''pt'', ''ru'', ''ko'', ''zh'']" for t
        using that by (auto simp: u_def)
      have ws: "ws = [u ''EUR'', u ''Europe'', u ''EU'']"
        using boundary_tokens_cases [OF m] n by simp
      have "i < Suc (length (u ''Game (Europe) (En)''))"
        using token_at_le [OF t] by simp
      then have "list_ex (\<lambda>w. list_ex (\<lambda>i. token_at ascii_only w (u ''Game (Europe) (En)'') i \<and>
            \<not> english_follows ascii_only (u ''Game (Europe) (En)'') (i + length w))
            [0 ..< Suc (length (u ''Game (Europe) (En)''))])
          [u ''EUR'', u ''Europe'', u ''EU'']"
        using w t l ws unfolding list_ex_iff set_upt by (meson atLeastLessThan_iff zero_le)
      moreover have "\<not> list_ex (\<lambda>w. list_ex (\<lambda>i. token_at ascii_only w (u ''Game (Europe) (En)'') i \<and>
            \<not> english_follows ascii_only (u ''Game (Europe) (En)'') (i + length w))
            [0 ..< Suc (length (u ''Game (Europe) (En)''))])
          [u ''EUR'', u ''Europe'', u ''EU'']"
        by code_simp
      ultimately show False by blast
    next
      assume "u ''eu'' = u ''multi''"
      then show False by (simp add: u_def)
    next
      fix ws w i
      assume "(u ''eu'', ws) \<in> set bare_tokens"
      then show False
        using bare_tokens_cases [of "u ''eu''" ws] by (simp add: u_def)
    qed
  qed
  show ?thesis
    by (intro conjI a jp b multi c c' zh g en h eu)
qed

text \<open>
  C9 asks that \<open>eu\<close> is left out whenever an English token is detected beside a
  \<open>Europe\<close>, \<open>EUR\<close> or \<open>EU\<close> token. The lookahead of the \<open>eu\<close> pattern only looks at
  what follows the region word: in \<open>Game (En) (Europe)\<close> the word \<open>En\<close> stands between
  word boundaries at 6 and \<open>Europe\<close> at 11, \<open>en\<close> is detected, and so is \<open>eu\<close>.
\<close>

theorem eu_suppressed_counterexample:
  "token_at ascii_only (u ''En'') (u ''Game (En) (Europe)'') 6 \<and>
   token_at ascii_only (u ''Europe'') (u ''Game (En) (Europe)'') 11 \<and>
   u ''en'' \<in> detect_languages ascii_only (u ''Game (En) (Europe)'') \<and>
   u ''eu'' \<in> detect_languages ascii_only (u ''Game (En) (Europe)'')"
proof -
  have a: "token_at ascii_only (u ''En'') (u ''Game (En) (Europe)'') 6"
    by code_simp
  have b: "token_at ascii_only (u ''Europe'') (u ''Game (En) (Europe)'') 11"
    by code_simp
  have c: "\<not> english_follows ascii_only (u ''Game (En) (Europe)'') (11 + length (u ''Europe''))"
    by code_simp
  have "u ''en'' \<in> detect_languages ascii_only (u ''Game (En) (Europe)'')"
    unfolding tag_en using a by auto
  moreover have "u ''eu'' \<in> detect_languages ascii_only (u ''Game (En) (Europe)'')"
    unfolding tag_eu using b c by auto
  ultimately show ?thesis using a b by simp
qed

text \<open>
  C9, as the code has it: \<open>eu\<close> is left out exactly when every \<open>EUR\<close>, \<open>Europe\<close> or
  \<open>EU\<close> between word boundaries is followed, before the next line feed, by \<open>En\<close>, \<open>Eng\<close>
  or \<open>English\<close> between word boundaries. An English word in front of the region word,
  and \<open>en\<close> detected from \<open>USA\<close>, \<open>U\<close> or \<open>World\<close>, do not remove \<open>eu\<close>.
\<close>

theorem eu_suppressed:
  "u ''eu'' \<notin> detect_languages U stem \<longleftrightarrow>
     (\<forall>w\<in>set [u ''EUR'', u ''Europe'', u ''EU''].
        \<forall>i. token_at U w stem i \<longrightarrow> english_follows U stem (i + length w))"
  unfolding tag_eu by blast

theorem eu_suppressed_witness:
  "u ''eu'' \<notin> detect_languages ascii_only (u ''Game (Europe) (En)'') \<and>
   token_at ascii_only (u ''Europe'') (u ''Game (Europe) (En)'') 6 \<and>
   english_follows ascii_only (u ''Game (Europe) (En)'') 12"
proof -
  have "\<not> list_ex (\<lambda>p. re_search ascii_only p (u ''Game (Europe) (En)'')) eu_patterns"
    by code_simp
  then have a: "u ''eu'' \<notin> detect_languages ascii_only (u ''Game (Europe) (En)'')"
    using detect_lookup [of "u ''eu''" eu_patterns ascii_only "u ''Game (Europe) (En)''"]
    by (simp add: LANGUAGE_PATTERNS_def list_ex_iff)
  have b: "token_at ascii_only (u ''Europe'') (u ''Game (Europe) (En)'') 6"
    by code_simp
  have m: "u ''Europe'' \<in> set [u ''EUR'', u ''Europe'', u ''EU'']"
    by simp
  have "english_follows ascii_only (u ''Game (Europe) (En)'') (6 + length (u ''Europe''))"
    using bspec [OF iffD1 [OF eu_suppressed a] m] b by blast
  then have c: "english_follows ascii_only (u ''Game (Europe) (En)'') 12"
    by simp
  show ?thesis
    using a b c by simp
qed

section \<open>Moving files\<close>

text \<open>
  Claim C6. \<open>unique_destination_path\<close> returns a path that does not exist: the path it
  is given when that is free, and otherwise the first free one of the candidates numbered
  1, 2, 3, ..., where candidate \<open>n\<close> of \<open>up/name\<close> is the stem of \<open>name\<close>, a space, \<open>n\<close> in
  parentheses, and the extension of \<open>name\<close>. A move that succeeds takes the content of the
  source to a path that did not exist, the one asked for or a numbered candidate of it, and
  leaves every other file with its path and content. Two different files moved one after
  the other to the same destination end at two different paths, each with its own content.
\<close>

theorem unique_destination_path_safe:
  "(\<not> os_path_exists fs d \<longrightarrow> unique_destination_path fs d = d) \<and>
   (os_path_exists fs d \<longrightarrow>
      (\<exists>k\<ge>1. unique_destination_path fs d =
                numbered (fst (path_splitext d)) (snd (path_splitext d)) k \<and>
              (\<forall>j. 1 \<le> j \<and> j < k \<longrightarrow>
                 os_path_exists fs (numbered (fst (path_splitext d)) (snd (path_splitext d)) j)))) \<and>
   \<not> os_path_exists fs (unique_destination_path fs d) \<and>
   numbered (fst (path_splitext (up @ [name]))) (snd (path_splitext (up @ [name]))) n =
     up @ [fst (splitext name) @ u '' ('' @ str_of_nat n @ u '')'' @ snd (splitext name)] \<and>
   (wf_fs fs \<and> relocate fs src d = Inr fs' \<longrightarrow>
      (\<exists>c final. map_of (files fs) src = Some c \<and> \<not> os_path_exists fs final \<and>
         (final = d \<or>
          (\<exists>k\<ge>1. final = numbered (fst (path_splitext d)) (snd (path_splitext d)) k)) \<and>
         set (files fs') = set (files fs) - {(src, c)} \<union> {(final, c)} \<and> wf_fs fs')) \<and>
   (wf_fs fs \<and> src \<noteq> src2 \<and> is_file fs src2 \<and>
    relocate fs src d = Inr fs' \<and> relocate fs' src2 d = Inr fs'' \<longrightarrow>
      (\<exists>c c2 final final2.
         map_of (files fs) src = Some c \<and> map_of (files fs) src2 = Some c2 \<and>
         final \<noteq> final2 \<and> \<not> os_path_exists fs final \<and> \<not> os_path_exists fs' final2 \<and>
         map_of (files fs'') final = Some c \<and> map_of (files fs'') final2 = Some c2 \<and>
         set (files fs'') =
           set (files fs) - {(src, c), (src2, c2)} \<union> {(final, c), (final2, c2)}))"
proof (intro conjI impI)
  assume "\<not> os_path_exists fs d"
  then show "unique_destination_path fs d = d"
    by (simp add: unique_destination_path_def)
next
  assume "os_path_exists fs d"
  then show "\<exists>k\<ge>1. unique_destination_path fs d =
                numbered (fst (path_splitext d)) (snd (path_splitext d)) k \<and>
              (\<forall>j. 1 \<le> j \<and> j < k \<longrightarrow>
                 os_path_exists fs (numbered (fst (path_splitext d)) (snd (path_splitext d)) j))"
    using unique_loop_form [of 1 fs "fst (path_splitext d)" "snd (path_splitext d)"]
    by (auto simp: unique_destination_path_def case_prod_beta)
next
  show "\<not> os_path_exists fs (unique_destination_path fs d)"
    by (rule unique_destination_path_free)
next
  show "numbered (fst (path_splitext (up @ [name]))) (snd (path_splitext (up @ [name]))) n =
     up @ [fst (splitext name) @ u '' ('' @ str_of_nat n @ u '')'' @ snd (splitext name)]"
    by (rule numbered_last)
next
  assume h: "wf_fs fs \<and> relocate fs src d = Inr fs'"
  then obtain c final where r: "map_of (files fs) src = Some c" "\<not> os_path_exists fs final"
    "files fs' = filter (\<lambda>(p, _). p \<noteq> src) (files fs) @ [(final, c)]" "wf_fs fs'"
    "final = d \<or>
          (\<exists>k\<ge>1. final = numbered (fst (path_splitext d)) (snd (path_splitext d)) k)"
    using relocate_effect [of fs src d fs'] by blast
  have d: "distinct (map fst (files fs))" using h by (simp add: wf_fs_iff)
  have n: "final \<notin> set (map fst (files fs))"
    using r(2) by (simp add: os_path_exists_def is_file_def)
  have "set (files fs') = set (files fs) - {(src, c)} \<union> {(final, c)}"
    unfolding r(3) by (rule set_files_moved [OF d r(1) n])
  then show "\<exists>c final. map_of (files fs) src = Some c \<and> \<not> os_path_exists fs final \<and>
         (final = d \<or>
          (\<exists>k\<ge>1. final = numbered (fst (path_splitext d)) (snd (path_splitext d)) k)) \<and>
         set (files fs') = set (files fs) - {(src, c)} \<union> {(final, c)} \<and> wf_fs fs'"
    using r by blast
next
  assume h: "wf_fs fs \<and> src \<noteq> src2 \<and> is_file fs src2 \<and>
    relocate fs src d = Inr fs' \<and> relocate fs' src2 d = Inr fs''"
  then obtain c final where r: "map_of (files fs) src = Some c" "\<not> os_path_exists fs final"
    "files fs' = filter (\<lambda>(p, _). p \<noteq> src) (files fs) @ [(final, c)]" "wf_fs fs'"
    "set (dirs fs) \<subseteq> set (dirs fs')"
    using relocate_effect [of fs src d fs'] by blast
  obtain c2' final2 where r2: "map_of (files fs') src2 = Some c2'" "\<not> os_path_exists fs' final2"
    "files fs'' = filter (\<lambda>(p, _). p \<noteq> src2) (files fs') @ [(final2, c2')]"
    using relocate_effect [OF r(4), of src2 d fs''] h by blast
  have dist: "distinct (map fst (files fs))" "distinct (map fst (files fs'))"
    using h r(4) by (simp_all add: wf_fs_iff)
  have nf: "final \<notin> set (map fst (files fs))"
    using r(2) by (simp add: os_path_exists_def is_file_def)
  have nf2': "final2 \<notin> set (map fst (files fs'))"
    using r2(2) by (simp add: os_path_exists_def is_file_def)
  have m1: "map_of (files fs') p = (if p = final then Some c else if p = src then None
      else map_of (files fs) p)" for p
    unfolding r(3) using nf by (rule map_of_moved)
  have m2: "map_of (files fs'') p = (if p = final2 then Some c2' else if p = src2 then None
      else map_of (files fs') p)" for p
    unfolding r2(3) using nf2' by (rule map_of_moved)
  obtain c2 where c2: "map_of (files fs) src2 = Some c2"
    using h by (auto simp: is_file_map_of)
  have s2f: "src2 \<noteq> final"
    using nf h by (auto simp: is_file_def)
  have c2': "c2' = c2"
  proof -
    have "src2 \<noteq> src" using h by auto
    then show ?thesis using r2(1) c2 s2f unfolding m1 by simp
  qed
  have ff: "final \<noteq> final2"
    using nf2' unfolding r(3) by auto
  have s1: "set (files fs') = set (files fs) - {(src, c)} \<union> {(final, c)}"
    unfolding r(3) by (rule set_files_moved [OF dist(1) r(1) nf])
  have s2: "set (files fs'') = set (files fs') - {(src2, c2)} \<union> {(final2, c2)}"
    unfolding r2(3) c2' by (rule set_files_moved [OF dist(2) r2(1) [unfolded c2'] nf2'])
  have "set (files fs'') = set (files fs) - {(src, c), (src2, c2)} \<union> {(final, c), (final2, c2)}"
    unfolding s2 s1 using s2f by auto
  moreover have "map_of (files fs'') final = Some c"
    unfolding m2 m1 using ff s2f by simp
  moreover have "map_of (files fs'') final2 = Some c2"
    unfolding m2 c2' by simp
  ultimately show "\<exists>c c2 final final2.
         map_of (files fs) src = Some c \<and> map_of (files fs) src2 = Some c2 \<and>
         final \<noteq> final2 \<and> \<not> os_path_exists fs final \<and> \<not> os_path_exists fs' final2 \<and>
         map_of (files fs'') final = Some c \<and> map_of (files fs'') final2 = Some c2 \<and>
         set (files fs'') =
           set (files fs) - {(src, c), (src2, c2)} \<union> {(final, c), (final2, c2)}"
    using r(1,2) c2 ff r2(2) by blast
qed

theorem unique_destination_path_safe_witness:
  "wf_fs clash_fs \<and>
   relocate clash_fs [u ''r'', u ''J.bin''] [u ''r'', MOVED_ROMS, u ''J.bin''] = Inr clash_fs1 \<and>
   relocate clash_fs1 [u ''r'', u ''d'', u ''J.bin''] [u ''r'', MOVED_ROMS, u ''J.bin''] =
     Inr clash_fs2 \<and>
   is_file clash_fs [u ''r'', u ''d'', u ''J.bin''] \<and>
   unique_destination_path clash_fs1 [u ''r'', MOVED_ROMS, u ''J.bin''] =
     [u ''r'', MOVED_ROMS, u ''J (1).bin''] \<and>
   (\<exists>c c2 final final2.
      map_of (files clash_fs) [u ''r'', u ''J.bin''] = Some c \<and>
      map_of (files clash_fs) [u ''r'', u ''d'', u ''J.bin''] = Some c2 \<and>
      final \<noteq> final2 \<and> \<not> os_path_exists clash_fs final \<and>
      \<not> os_path_exists clash_fs1 final2 \<and>
      map_of (files clash_fs2) final = Some c \<and> map_of (files clash_fs2) final2 = Some c2 \<and>
      set (files clash_fs2) =
        set (files clash_fs) -
          {([u ''r'', u ''J.bin''], c), ([u ''r'', u ''d'', u ''J.bin''], c2)} \<union>
          {(final, c), (final2, c2)})"
proof -
  have a: "wf_fs clash_fs"
    by code_simp
  have b: "relocate clash_fs [u ''r'', u ''J.bin''] [u ''r'', MOVED_ROMS, u ''J.bin''] =
      Inr clash_fs1"
    by code_simp
  have c: "relocate clash_fs1 [u ''r'', u ''d'', u ''J.bin''] [u ''r'', MOVED_ROMS, u ''J.bin''] =
      Inr clash_fs2"
    by code_simp
  have d: "is_file clash_fs [u ''r'', u ''d'', u ''J.bin'']"
    by code_simp
  have e: "unique_destination_path clash_fs1 [u ''r'', MOVED_ROMS, u ''J.bin''] =
      [u ''r'', MOVED_ROMS, u ''J (1).bin'']"
    by code_simp
  have n: "[u ''r'', u ''J.bin''] \<noteq> [u ''r'', u ''d'', u ''J.bin'']"
    by simp
  note two = conjunct2 [OF conjunct2 [OF conjunct2 [OF conjunct2 [OF conjunct2 [OF
    unique_destination_path_safe [of clash_fs "[u ''r'', MOVED_ROMS, u ''J.bin'']" _ _ _
      "[u ''r'', u ''J.bin'']" clash_fs1 "[u ''r'', u ''d'', u ''J.bin'']" clash_fs2]]]]]]
  show ?thesis
    using a b c d e mp [OF two, OF conjI [OF a conjI [OF n conjI [OF d conjI [OF b c]]]]]
    by (intro conjI)
qed
section \<open>The sweep of empty directories\<close>

text \<open>
  Claim C8. On a tree in which no file is left under \<open>Moved ROMS\<close>, the sweep removes the
  innermost directory \<open>Moved ROMS/snes/jp\<close> only. \<open>Moved ROMS/snes\<close> is empty afterwards and
  stays, and so does \<open>Moved ROMS\<close>: the walk listed each of them before it went down, and
  the sweep tests that listing.
\<close>

theorem cleanup_leaves_parents:
  "wf_fs emptied_fs \<and>
   filter (\<lambda>(p, c). prefix [u ''r'', MOVED_ROMS] p) (files emptied_fs) = [] \<and>
   cleanup_empty_dirs emptied_fs [u ''r'', MOVED_ROMS] =
     Some (swept_fs, [[u ''r'', MOVED_ROMS, u ''snes'', u ''jp'']]) \<and>
   os_scandir swept_fs [u ''r'', MOVED_ROMS, u ''snes''] = Some ([], []) \<and>
   os_path_isdir swept_fs [u ''r'', MOVED_ROMS]"
  by code_simp

end
